theory Spec2Isabelle
  imports Main
begin

section \<open>The chess analysis server (chesse.py)\<close>

text \<open>
  The server is one Flask route, \<^verbatim>\<open>analyze\<close>, over three module globals: the
  Stockfish process \<^verbatim>\<open>engine\<close>, the lock \<^verbatim>\<open>engine_lock\<close> and the dictionary
  \<^verbatim>\<open>position_cache\<close> with its bound \<^verbatim>\<open>MAX_CACHE_SIZE\<close>. The route is embedded as
  a function from the globals and the request to a response and the new globals. What the
  libraries decide (the parsed JSON body, whether \<^verbatim>\<open>chess.Board(fen)\<close> accepts the
  string, what each call on the engine process does) is an input of the model.
\<close>

subsection \<open>JSON values and Python truthiness\<close>

text \<open>
  \<^verbatim>\<open>request.get_json()\<close> either raises or returns a parsed value. The tests
  \<^verbatim>\<open>if not data\<close> and \<^verbatim>\<open>if not fen\<close> use Python's truth value: \<^verbatim>\<open>None\<close>,
  \<^verbatim>\<open>False\<close>, zero and the empty string, list and dictionary are false. Numbers are
  integers here. A dictionary is the list of its items, in order, with distinct keys.
\<close>

datatype json =
    JNull
  | JBool bool
  | JNum int
  | JStr string
  | JArr "json list"
  | JObj "(string \<times> json) list"

fun truthy :: "json \<Rightarrow> bool" where
  "truthy JNull = False"
| "truthy (JBool b) = b"
| "truthy (JNum n) = (n \<noteq> 0)"
| "truthy (JStr s) = (s \<noteq> [])"
| "truthy (JArr xs) = (xs \<noteq> [])"
| "truthy (JObj kvs) = (kvs \<noteq> [])"

datatype exn =
    BadRequest
  | AttributeError
  | TypeError
  | ValueError
  | KeyError
  | StopIteration
  | EngineError

datatype 'a outcome = Raised | Returned 'a

text \<open>
  \<^verbatim>\<open>data.get('fen')\<close>: a dictionary answers with the value or \<^verbatim>\<open>None\<close>; any other
  value that passed \<^verbatim>\<open>if not data\<close> (a number, a string, a list, \<^verbatim>\<open>True\<close>) has
  no method \<^verbatim>\<open>get\<close>.
\<close>

fun data_get :: "json \<Rightarrow> string \<Rightarrow> exn + json" where
  "data_get (JObj kvs) k = Inr (case map_of kvs k of None \<Rightarrow> JNull | Some v \<Rightarrow> v)"
| "data_get _ k = Inl AttributeError"

subsection \<open>Scores of python-chess\<close>

text \<open>
  \<^verbatim>\<open>result['score']\<close> is a \<^verbatim>\<open>PovScore\<close>: a score relative to the side to move,
  with that side. A score is \<^verbatim>\<open>Cp(n)\<close>, \<^verbatim>\<open>Mate(n)\<close> (the side mates in \<open>n\<close> for
  \<open>n > 0\<close>, is mated in \<open>- n\<close> for \<open>n < 0\<close>, and is already mated for \<open>n = 0\<close>) or
  \<^verbatim>\<open>MateGiven\<close> (the side has given mate). \<^verbatim>\<open>white()\<close> keeps the relative score when
  White is to move and negates it otherwise; the negation of \<^verbatim>\<open>Mate(0)\<close> is
  \<^verbatim>\<open>MateGiven\<close> and back. \<^verbatim>\<open>mate()\<close> is \<^verbatim>\<open>None\<close> on \<^verbatim>\<open>Cp\<close>, the number of
  moves on \<^verbatim>\<open>Mate\<close> and \<open>0\<close> on \<^verbatim>\<open>MateGiven\<close>; \<^verbatim>\<open>is_mate()\<close> says whether it is
  not \<^verbatim>\<open>None\<close>; \<^verbatim>\<open>score()\<close> is the centipawns on \<^verbatim>\<open>Cp\<close> and \<^verbatim>\<open>None\<close> on the
  others.
\<close>

datatype color = White | Black

datatype score = Cp int | Mate int | MateGiven

datatype pov_score = PovScore (relative: score) (turn: color)

fun neg :: "score \<Rightarrow> score" where
  "neg (Cp n) = Cp (- n)"
| "neg (Mate n) = (if n = 0 then MateGiven else Mate (- n))"
| "neg MateGiven = Mate 0"

fun white :: "pov_score \<Rightarrow> score" where
  "white (PovScore r t) = (if t = White then r else neg r)"

fun mate :: "score \<Rightarrow> int option" where
  "mate (Cp n) = None"
| "mate (Mate n) = Some n"
| "mate MateGiven = Some 0"

definition is_mate :: "score \<Rightarrow> bool" where
  "is_mate sc = (mate sc \<noteq> None)"

fun score_cp :: "score \<Rightarrow> int option" where
  "score_cp (Cp n) = Some n"
| "score_cp (Mate n) = None"
| "score_cp MateGiven = None"

text \<open>
  Lines 115 to 119: the evaluation put in the response. It is \<^verbatim>\<open>None\<close> only if
  \<^verbatim>\<open>score()\<close> is, which the test \<^verbatim>\<open>is_mate()\<close> excludes.
\<close>

definition evaluation_of :: "score \<Rightarrow> int option" where
  "evaluation_of sc =
     (if is_mate sc then (if the (mate sc) > 0 then Some 10000 else Some (- 10000))
      else score_cp sc)"

text \<open>
  Which side a reported mate is good for: a positive \<^verbatim>\<open>Mate\<close> and \<^verbatim>\<open>MateGiven\<close>
  are mates by the side the score is relative to, a negative \<^verbatim>\<open>Mate\<close> and
  \<^verbatim>\<open>Mate(0)\<close> are mates of that side by its opponent.
\<close>

fun opponent :: "color \<Rightarrow> color" where
  "opponent White = Black"
| "opponent Black = White"

fun winner :: "pov_score \<Rightarrow> color option" where
  "winner (PovScore (Cp n) t) = None"
| "winner (PovScore (Mate n) t) = Some (if n > 0 then t else opponent t)"
| "winner (PovScore MateGiven t) = Some t"

subsection \<open>The globals\<close>

text \<open>
  A cached result is a Python dictionary with the four keys of \<^verbatim>\<open>response_data\<close>.
  Dictionaries are objects: the store \<open>heap\<close> holds them, an object's reference is its
  index, and \<^verbatim>\<open>copy()\<close> and a dictionary display allocate a new one at the end.
  \<^verbatim>\<open>position_cache\<close> is an insertion-ordered dictionary from the position string to the
  reference of its result. \<open>engine\<close> numbers the engine processes started so far, the
  current one being the last. \<open>trace\<close> is a ghost log of the lock operations and of the
  calls made on engine processes.
\<close>

record response_data =
  bestmove :: string
  evaluation :: "int option"
  fen :: string
  cached :: bool

type_synonym ref = nat

datatype event =
    Acquire
  | Release
  | Analyse nat string
  | Play nat string
  | Quit nat
  | Popen
  | Configure nat

record state =
  position_cache :: "(string \<times> ref) list"
  heap :: "response_data list"
  engine :: nat
  trace :: "event list"

definition MAX_CACHE_SIZE :: nat where
  "MAX_CACHE_SIZE = 512"

definition alloc :: "response_data \<Rightarrow> state \<Rightarrow> ref \<times> state" where
  "alloc d s = (length (heap s), s\<lparr>heap := heap s @ [d]\<rparr>)"

definition log :: "event \<Rightarrow> state \<Rightarrow> state" where
  "log e s = s\<lparr>trace := trace s @ [e]\<rparr>"

subsection \<open>The dictionary operations of the cache write\<close>

text \<open>
  \<^verbatim>\<open>position_cache.pop(next(iter(position_cache)))\<close> removes the first key of the
  iteration order, which is the insertion order; on an empty dictionary \<^verbatim>\<open>next\<close>
  raises \<^verbatim>\<open>StopIteration\<close>. \<^verbatim>\<open>position_cache[fen] = v\<close> replaces the value of a
  present key where it stands and appends an absent key.
\<close>

fun pop_first :: "('k \<times> 'v) list \<Rightarrow> exn + ('k \<times> 'v) list" where
  "pop_first [] = Inl StopIteration"
| "pop_first (kv # c) = Inr c"

fun setitem :: "('k \<times> 'v) list \<Rightarrow> 'k \<Rightarrow> 'v \<Rightarrow> ('k \<times> 'v) list" where
  "setitem [] k v = [(k, v)]"
| "setitem ((k', v') # c) k v = (if k' = k then (k, v) # c else (k', v') # setitem c k v)"

text \<open>Lines 128 to 130 on the dictionary alone, the value being already built.\<close>

definition cache_put :: "('k \<times> 'v) list \<Rightarrow> 'k \<Rightarrow> 'v \<Rightarrow> exn + ('k \<times> 'v) list" where
  "cache_put c k v =
     (if length c \<ge> MAX_CACHE_SIZE
      then (case pop_first c of Inl e \<Rightarrow> Inl e | Inr c' \<Rightarrow> Inr (setitem c' k v))
      else Inr (setitem c k v))"

subsection \<open>The engine process\<close>

text \<open>
  What the libraries do during one call of the route is given by an \<open>env\<close>:
  whether \<^verbatim>\<open>chess.Board\<close> accepts a string, and for each call on the engine
  whether it raises or what it returns. \<^verbatim>\<open>engine.analyse\<close> returns a dictionary
  whose key \<^verbatim>\<open>'score'\<close> may be missing; \<^verbatim>\<open>engine.play\<close> returns a result whose
  \<^verbatim>\<open>move\<close> may be \<^verbatim>\<open>None\<close>, and is the move's UCI string otherwise. The calls of the
  \<^verbatim>\<open>try\<close> block are numbered 1, those of the \<^verbatim>\<open>except\<close> block 2.
\<close>

record env =
  chess_Board :: "string \<Rightarrow> bool"
  analyse_1 :: "pov_score option outcome"
  play_1 :: "string option outcome"
  quit_ok :: bool
  popen_ok :: bool
  configure_ok :: bool
  analyse_2 :: "pov_score option outcome"
  play_2 :: "string option outcome"

definition engine_call :: "event \<Rightarrow> 'a outcome \<Rightarrow> state \<Rightarrow> (exn + 'a) \<times> state" where
  "engine_call e r s = (case r of Raised \<Rightarrow> Inl EngineError | Returned x \<Rightarrow> Inr x, log e s)"

definition engine_analyse ::
  "pov_score option outcome \<Rightarrow> string \<Rightarrow> state \<Rightarrow> (exn + pov_score option) \<times> state" where
  "engine_analyse r f s = engine_call (Analyse (engine s) f) r s"

definition engine_play ::
  "string option outcome \<Rightarrow> string \<Rightarrow> state \<Rightarrow> (exn + string option) \<times> state" where
  "engine_play r f s = engine_call (Play (engine s) f) r s"

text \<open>
  \<^verbatim>\<open>initialize_engine\<close>, lines 56 to 70. The global \<^verbatim>\<open>engine\<close> is an engine
  object from the first call at import on, so \<^verbatim>\<open>if engine\<close> holds and \<^verbatim>\<open>quit\<close> is
  called; whatever it raises is swallowed. The global is assigned only when
  \<^verbatim>\<open>popen_uci\<close> returns.
\<close>

definition initialize_engine :: "env \<Rightarrow> state \<Rightarrow> (exn + unit) \<times> state" where
  "initialize_engine w s =
     (let s1 = log (Quit (engine s)) s;
          s2 = log Popen s1
      in if \<not> popen_ok w then (Inl EngineError, s2)
         else let s3 = s2\<lparr>engine := Suc (engine s2)\<rparr>;
                  s4 = log (Configure (engine s3)) s3
              in if \<not> configure_ok w then (Inl EngineError, s4) else (Inr (), s4))"

text \<open>The two statements of a \<^verbatim>\<open>try\<close> or \<^verbatim>\<open>except\<close> block: analyse, then play.\<close>

definition evaluate ::
  "pov_score option outcome \<Rightarrow> string option outcome \<Rightarrow> string \<Rightarrow> state
   \<Rightarrow> (exn + pov_score option \<times> string option) \<times> state" where
  "evaluate a p f s =
     (case engine_analyse a f s of
        (Inl e, s1) \<Rightarrow> (Inl e, s1)
      | (Inr result, s1) \<Rightarrow>
          (case engine_play p f s1 of
             (Inl e, s2) \<Rightarrow> (Inl e, s2)
           | (Inr bestmove_result, s2) \<Rightarrow> (Inr (result, bestmove_result), s2)))"

text \<open>The \<^verbatim>\<open>except\<close> block, lines 110 to 113.\<close>

definition recover ::
  "env \<Rightarrow> string \<Rightarrow> state \<Rightarrow> (exn + pov_score option \<times> string option) \<times> state" where
  "recover w f s =
     (case initialize_engine w s of
        (Inl e, s1) \<Rightarrow> (Inl e, s1)
      | (Inr u, s1) \<Rightarrow> evaluate (analyse_2 w) (play_2 w) f s1)"

text \<open>
  The \<^verbatim>\<open>with engine_lock\<close> block, lines 106 to 113: the lock is released when the
  block is left, also by an exception.
\<close>

definition locked_section ::
  "env \<Rightarrow> string \<Rightarrow> state \<Rightarrow> (exn + pov_score option \<times> string option) \<times> state" where
  "locked_section w f s =
     (let (r, s1) =
        (case evaluate (analyse_1 w) (play_1 w) f (log Acquire s) of
           (Inr x, s1) \<Rightarrow> (Inr x, s1)
         | (Inl e, s1) \<Rightarrow> recover w f s1)
      in (r, log Release s1))"

subsection \<open>The route\<close>

text \<open>
  \<^verbatim>\<open>fen in position_cache\<close> hashes the value: a list or a dictionary is unhashable;
  a number or \<^verbatim>\<open>True\<close> is hashable and equals no key, the keys being strings.
  \<^verbatim>\<open>position_cache[fen]\<close> raises \<^verbatim>\<open>KeyError\<close> on an absent key. \<^verbatim>\<open>chess.Board\<close>
  splits its argument as a string, which a value of another type does not support, and
  raises \<^verbatim>\<open>ValueError\<close> on a string it cannot parse.
\<close>

fun contains :: "(string \<times> ref) list \<Rightarrow> json \<Rightarrow> exn + bool" where
  "contains c (JStr f) = Inr (f \<in> set (map fst c))"
| "contains c (JArr xs) = Inl TypeError"
| "contains c (JObj kvs) = Inl TypeError"
| "contains c _ = Inr False"

fun getitem :: "(string \<times> ref) list \<Rightarrow> json \<Rightarrow> exn + ref" where
  "getitem c (JStr f) = (case map_of c f of None \<Rightarrow> Inl KeyError | Some a \<Rightarrow> Inr a)"
| "getitem c _ = Inl KeyError"

fun Board :: "env \<Rightarrow> json \<Rightarrow> exn + string" where
  "Board w (JStr f) = (if chess_Board w f then Inr f else Inl ValueError)"
| "Board w _ = Inl AttributeError"

datatype reply = Reply400 string | Reply200 ref

text \<open>
  The cache hit, lines 100 to 102: the stored dictionary is copied, the copy is marked and
  handed to \<^verbatim>\<open>jsonify\<close>.
\<close>

definition hit :: "json \<Rightarrow> state \<Rightarrow> (exn + reply) \<times> state" where
  "hit v s =
     (case getitem (position_cache s) v of
        Inl e \<Rightarrow> (Inl e, s)
      | Inr a \<Rightarrow>
          (let (r, s1) = alloc (heap s ! a) s;
               s2 = s1\<lparr>heap := (heap s1)[r := (heap s1 ! r)\<lparr>cached := True\<rparr>]\<rparr>
           in (Inr (Reply200 r), s2)))"

text \<open>
  Lines 88 to 104: what the route does before it asks for the lock. It ends the request
  with a reply or an exception, or goes on with the position string.
\<close>

definition prelude :: "env \<Rightarrow> json outcome \<Rightarrow> state \<Rightarrow> (exn + reply + string) \<times> state" where
  "prelude w request s =
     (case request of
        Raised \<Rightarrow> (Inl BadRequest, s)
      | Returned data \<Rightarrow>
          if \<not> truthy data then (Inr (Inl (Reply400 ''Invalid JSON'')), s)
          else (case data_get data ''fen'' of
                  Inl e \<Rightarrow> (Inl e, s)
                | Inr v \<Rightarrow>
                    if \<not> truthy v then (Inr (Inl (Reply400 ''No FEN provided'')), s)
                    else (case contains (position_cache s) v of
                            Inl e \<Rightarrow> (Inl e, s)
                          | Inr True \<Rightarrow>
                              (case hit v s of
                                 (Inl e, s1) \<Rightarrow> (Inl e, s1)
                               | (Inr rep, s1) \<Rightarrow> (Inr (Inl rep), s1))
                          | Inr False \<Rightarrow>
                              (case Board w v of
                                 Inl e \<Rightarrow> (Inl e, s)
                               | Inr f \<Rightarrow> (Inr (Inr f), s)))))"

text \<open>
  Lines 115 to 132, after the lock is released: the evaluation, the dictionary
  \<^verbatim>\<open>response_data\<close>, the eviction, the insertion of a copy, and the reply.
\<close>

definition finish ::
  "string \<Rightarrow> pov_score option \<Rightarrow> string option \<Rightarrow> state \<Rightarrow> (exn + reply) \<times> state" where
  "finish f result bestmove_result s =
     (case result of
        None \<Rightarrow> (Inl KeyError, s)
      | Some ps \<Rightarrow>
          (let ev = evaluation_of (white ps) in
           case bestmove_result of
             None \<Rightarrow> (Inl AttributeError, s)
           | Some uci \<Rightarrow>
               (let (r, s1) = alloc \<lparr>bestmove = uci, evaluation = ev, fen = f, cached = False\<rparr> s
                in case (if length (position_cache s1) \<ge> MAX_CACHE_SIZE
                         then pop_first (position_cache s1) else Inr (position_cache s1)) of
                     Inl e \<Rightarrow> (Inl e, s1)
                   | Inr c \<Rightarrow>
                       (let s2 = s1\<lparr>position_cache := c\<rparr>;
                            (a, s3) = alloc (heap s2 ! r) s2;
                            s4 = s3\<lparr>position_cache := setitem (position_cache s3) f a\<rparr>
                        in (Inr (Reply200 r), s4)))))"

text \<open>The body of the \<^verbatim>\<open>try\<close> statement of the route.\<close>

definition analyze_body :: "env \<Rightarrow> json outcome \<Rightarrow> state \<Rightarrow> (exn + reply) \<times> state" where
  "analyze_body w request s =
     (case prelude w request s of
        (Inl e, s1) \<Rightarrow> (Inl e, s1)
      | (Inr (Inl rep), s1) \<Rightarrow> (Inr rep, s1)
      | (Inr (Inr f), s1) \<Rightarrow>
          (case locked_section w f s1 of
             (Inl e, s2) \<Rightarrow> (Inl e, s2)
           | (Inr (result, bestmove_result), s2) \<Rightarrow> finish f result bestmove_result s2))"

text \<open>
  The route: a returned dictionary is sent with status 200, the two refusals with 400,
  and \<^verbatim>\<open>except Exception\<close> turns every exception into status 500.
\<close>

datatype payload = ErrorMsg string | ErrorExn exn | Result response_data

definition respond :: "exn + reply \<Rightarrow> state \<Rightarrow> payload \<times> nat" where
  "respond x s =
     (case x of
        Inl e \<Rightarrow> (ErrorExn e, 500)
      | Inr (Reply400 m) \<Rightarrow> (ErrorMsg m, 400)
      | Inr (Reply200 r) \<Rightarrow> (Result (heap s ! r), 200))"

definition analyze :: "env \<Rightarrow> json outcome \<Rightarrow> state \<Rightarrow> (payload \<times> nat) \<times> state" where
  "analyze w request s = (case analyze_body w request s of (x, s1) \<Rightarrow> (respond x s1, s1))"

text \<open>
  Every reference held by the cache is the index of an object of the store, as every
  Python reference is; the keys of a dictionary are distinct.
\<close>

definition wf :: "state \<Rightarrow> bool" where
  "wf s = (distinct (map fst (position_cache s))
           \<and> list_all (\<lambda>kv. snd kv < length (heap s)) (position_cache s))"

text \<open>
  The request whose body is a JSON object with a non-empty string under \<^verbatim>\<open>'fen'\<close>:
  the only requests that get past line 97 with a value \<^verbatim>\<open>chess.Board\<close> can accept.
\<close>

fun asks :: "json outcome \<Rightarrow> string \<Rightarrow> bool" where
  "asks (Returned (JObj kvs)) f = (map_of kvs ''fen'' = Some (JStr f) \<and> f \<noteq> [])"
| "asks _ f = False"

text \<open>
  An evaluation, the pair of calls of a \<^verbatim>\<open>try\<close> or \<^verbatim>\<open>except\<close> block, fails when
  \<^verbatim>\<open>analyse\<close> raises or \<^verbatim>\<open>play\<close> does. In a trace, an evaluation shows as its
  \<^verbatim>\<open>Analyse\<close> event and a restart as its \<^verbatim>\<open>Popen\<close> event.
\<close>

definition evaluation_fails :: "pov_score option outcome \<Rightarrow> string option outcome \<Rightarrow> bool" where
  "evaluation_fails a p = (a = Raised \<or> p = Raised)"

fun is_popen :: "event \<Rightarrow> bool" where
  "is_popen Popen = True"
| "is_popen _ = False"

fun is_analyse :: "event \<Rightarrow> bool" where
  "is_analyse (Analyse e f) = True"
| "is_analyse _ = False"

definition restarts :: "event list \<Rightarrow> nat" where
  "restarts tr = length (filter is_popen tr)"

definition evaluations :: "event list \<Rightarrow> nat" where
  "evaluations tr = length (filter is_analyse tr)"

text \<open>The events a call adds to the trace.\<close>

definition events :: "state \<Rightarrow> state \<Rightarrow> event list" where
  "events s s' = drop (length (trace s)) (trace s')"

text \<open>
  What the locked section does, read off the environment: the result and the events of
  one evaluation, of \<^verbatim>\<open>initialize_engine\<close>, of the \<^verbatim>\<open>except\<close> block and of the
  whole \<^verbatim>\<open>with\<close> block. The lemmas \<open>evaluate_eq\<close> to \<open>locked_section_eq\<close> prove
  them equal to what the definitions above compute.
\<close>

definition evaluate_events :: "pov_score option outcome \<Rightarrow> nat \<Rightarrow> string \<Rightarrow> event list" where
  "evaluate_events a e f = (case a of Raised \<Rightarrow> [Analyse e f] | Returned r \<Rightarrow> [Analyse e f, Play e f])"

definition evaluate_result ::
  "pov_score option outcome \<Rightarrow> string option outcome \<Rightarrow> exn + pov_score option \<times> string option" where
  "evaluate_result a p =
     (case a of Raised \<Rightarrow> Inl EngineError
      | Returned r \<Rightarrow> (case p of Raised \<Rightarrow> Inl EngineError | Returned b \<Rightarrow> Inr (r, b)))"

definition init_events :: "env \<Rightarrow> nat \<Rightarrow> event list" where
  "init_events w e = [Quit e, Popen] @ (if popen_ok w then [Configure (Suc e)] else [])"

definition recover_events :: "env \<Rightarrow> nat \<Rightarrow> string \<Rightarrow> event list" where
  "recover_events w e f =
     init_events w e @ (if popen_ok w \<and> configure_ok w then evaluate_events (analyse_2 w) (Suc e) f else [])"

definition locked_events :: "env \<Rightarrow> nat \<Rightarrow> string \<Rightarrow> event list" where
  "locked_events w e f =
     [Acquire] @ evaluate_events (analyse_1 w) e f
     @ (if evaluation_fails (analyse_1 w) (play_1 w) then recover_events w e f else [])
     @ [Release]"

definition locked_result :: "env \<Rightarrow> exn + pov_score option \<times> string option" where
  "locked_result w =
     (if \<not> evaluation_fails (analyse_1 w) (play_1 w) then evaluate_result (analyse_1 w) (play_1 w)
      else if popen_ok w \<and> configure_ok w then evaluate_result (analyse_2 w) (play_2 w)
      else Inl EngineError)"


subsection \<open>Concurrent requests\<close>

text \<open>
  The server runs with \<^verbatim>\<open>threaded=True\<close>: each request runs the route on a thread of
  its own, over the same globals. A thread is at one of the places below and moves in
  atomic steps: the lines before the lock, the acquisition of the lock (possible only
  when it is free), each call on the engine inside the \<^verbatim>\<open>with\<close> block, the exit of
  the block, which releases the lock, and the lines after it, which compute the
  evaluation and write the cache.
\<close>

datatype pc =
    Entry
  | AtLock string
  | TryAnalyse string
  | TryPlay string "pov_score option"
  | ExceptInit string
  | ExceptAnalyse string
  | ExceptPlay string "pov_score option"
  | Unlock string "exn + pov_score option \<times> string option"
  | Tail string "pov_score option" "string option"
  | Finished "payload \<times> nat"

record thread =
  request :: "json outcome"
  world :: env
  at :: pc

record system =
  globals :: state
  engine_lock :: "nat option"
  threads :: "thread list"

definition step_thread ::
  "nat \<Rightarrow> thread \<Rightarrow> state \<Rightarrow> nat option \<Rightarrow> (pc \<times> state \<times> nat option) option" where
  "step_thread i t g l =
     (case at t of
        Entry \<Rightarrow>
          (case prelude (world t) (request t) g of
             (Inl e, g1) \<Rightarrow> Some (Finished (respond (Inl e) g1), g1, l)
           | (Inr (Inl rep), g1) \<Rightarrow> Some (Finished (respond (Inr rep) g1), g1, l)
           | (Inr (Inr f), g1) \<Rightarrow> Some (AtLock f, g1, l))
      | AtLock f \<Rightarrow>
          (if l = None then Some (TryAnalyse f, log Acquire g, Some i) else None)
      | TryAnalyse f \<Rightarrow>
          (case engine_analyse (analyse_1 (world t)) f g of
             (Inl e, g1) \<Rightarrow> Some (ExceptInit f, g1, l)
           | (Inr result, g1) \<Rightarrow> Some (TryPlay f result, g1, l))
      | TryPlay f result \<Rightarrow>
          (case engine_play (play_1 (world t)) f g of
             (Inl e, g1) \<Rightarrow> Some (ExceptInit f, g1, l)
           | (Inr bestmove_result, g1) \<Rightarrow> Some (Unlock f (Inr (result, bestmove_result)), g1, l))
      | ExceptInit f \<Rightarrow>
          (case initialize_engine (world t) g of
             (Inl e, g1) \<Rightarrow> Some (Unlock f (Inl e), g1, l)
           | (Inr u, g1) \<Rightarrow> Some (ExceptAnalyse f, g1, l))
      | ExceptAnalyse f \<Rightarrow>
          (case engine_analyse (analyse_2 (world t)) f g of
             (Inl e, g1) \<Rightarrow> Some (Unlock f (Inl e), g1, l)
           | (Inr result, g1) \<Rightarrow> Some (ExceptPlay f result, g1, l))
      | ExceptPlay f result \<Rightarrow>
          (case engine_play (play_2 (world t)) f g of
             (Inl e, g1) \<Rightarrow> Some (Unlock f (Inl e), g1, l)
           | (Inr bestmove_result, g1) \<Rightarrow> Some (Unlock f (Inr (result, bestmove_result)), g1, l))
      | Unlock f r \<Rightarrow>
          (case r of
             Inl e \<Rightarrow> Some (Finished (respond (Inl e) g), log Release g, None)
           | Inr (result, bestmove_result) \<Rightarrow>
               Some (Tail f result bestmove_result, log Release g, None))
      | Tail f result bestmove_result \<Rightarrow>
          (case finish f result bestmove_result g of
             (x, g1) \<Rightarrow> Some (Finished (respond x g1), g1, l))
      | Finished resp \<Rightarrow> None)"

text \<open>
  A step of the server: a request arrives and gets a thread, or one thread makes its
  next step. The server starts with the lock free and no request under way.
\<close>

inductive step :: "system \<Rightarrow> system \<Rightarrow> bool" where
  arrive:
    "step S (S\<lparr>threads := threads S @ [\<lparr>request = r, world = w, at = Entry\<rparr>]\<rparr>)"
| move:
    "i < length (threads S) \<Longrightarrow>
     step_thread i (threads S ! i) (globals S) (engine_lock S) = Some (p, g, l) \<Longrightarrow>
     step S (S\<lparr>globals := g, engine_lock := l,
              threads := (threads S)[i := (threads S ! i)\<lparr>at := p\<rparr>]\<rparr>)"

definition initial :: "system \<Rightarrow> bool" where
  "initial S = (engine_lock S = None \<and> threads S = [])"

inductive reachable :: "system \<Rightarrow> bool" where
  reach_initial: "initial S \<Longrightarrow> reachable S"
| reach_step: "reachable S \<Longrightarrow> step S S' \<Longrightarrow> reachable S'"

text \<open>The places inside the \<^verbatim>\<open>with engine_lock\<close> block, and the place of the cache write.\<close>

fun in_with :: "pc \<Rightarrow> bool" where
  "in_with (TryAnalyse f) = True"
| "in_with (TryPlay f r) = True"
| "in_with (ExceptInit f) = True"
| "in_with (ExceptAnalyse f) = True"
| "in_with (ExceptPlay f r) = True"
| "in_with (Unlock f r) = True"
| "in_with _ = False"

fun at_cache_write :: "pc \<Rightarrow> bool" where
  "at_cache_write (Tail f r b) = True"
| "at_cache_write _ = False"

text \<open>One thread alone, run for a number of steps.\<close>

fun run :: "nat \<Rightarrow> nat \<Rightarrow> thread \<Rightarrow> state \<Rightarrow> nat option \<Rightarrow> pc \<times> state \<times> nat option" where
  "run 0 i t g l = (at t, g, l)"
| "run (Suc n) i t g l =
     (case step_thread i t g l of
        None \<Rightarrow> (at t, g, l)
      | Some (p, g1, l1) \<Rightarrow> run n i (t\<lparr>at := p\<rparr>) g1 l1)"

text \<open>The calls on an engine process among the events.\<close>

fun is_engine_call :: "event \<Rightarrow> bool" where
  "is_engine_call Acquire = False"
| "is_engine_call Release = False"
| "is_engine_call _ = True"

text \<open>
  What holds between the lock and the places of the threads: a thread is inside the
  \<^verbatim>\<open>with\<close> block exactly when it owns the lock, and the owner is a thread.
\<close>

definition lock_inv :: "system \<Rightarrow> bool" where
  "lock_inv S =
     ((\<forall>i < length (threads S). in_with (at (threads S ! i)) = (engine_lock S = Some i))
      \<and> (\<forall>i. engine_lock S = Some i \<longrightarrow> i < length (threads S)))"

text \<open>
  A schedule is a list of steps of the server, run from a given state; it yields no
  state when a thread is asked to move that cannot.
\<close>

datatype action = Arrive "json outcome" env | Move nat

fun do_action :: "action \<Rightarrow> system \<Rightarrow> system option" where
  "do_action (Arrive r w) S = Some (S\<lparr>threads := threads S @ [\<lparr>request = r, world = w, at = Entry\<rparr>]\<rparr>)"
| "do_action (Move i) S =
     (if i < length (threads S)
      then (case step_thread i (threads S ! i) (globals S) (engine_lock S) of
              None \<Rightarrow> None
            | Some (p, g, l) \<Rightarrow>
                Some (S\<lparr>globals := g, engine_lock := l,
                        threads := (threads S)[i := (threads S ! i)\<lparr>at := p\<rparr>]\<rparr>))
      else None)"

fun exec :: "action list \<Rightarrow> system \<Rightarrow> system option" where
  "exec [] S = Some S"
| "exec (a # as) S = (case do_action a S of None \<Rightarrow> None | Some S' \<Rightarrow> exec as S')"

subsection \<open>Example data\<close>

text \<open>
  The globals of a server that has just started, the request for a position, a library
  that accepts the initial position only with an engine that answers, and a cache of
  \<open>n\<close> distinct keys in their order of insertion.
\<close>

definition s0 :: state where
  "s0 = \<lparr>position_cache = [], heap = [], engine = 0, trace = []\<rparr>"

definition startpos :: string where
  "startpos = ''rnbqkbnr/pppppppp/8/8/8/8/PPPPPPPP/RNBQKBNR w KQkq - 0 1''"

definition healthy :: env where
  "healthy =
     \<lparr>chess_Board = (\<lambda>f. f = startpos),
      analyse_1 = Returned (Some (PovScore (Cp 31) White)),
      play_1 = Returned (Some ''e2e4''),
      quit_ok = True, popen_ok = True, configure_ok = True,
      analyse_2 = Returned (Some (PovScore (Cp 28) White)),
      play_2 = Returned (Some ''d2d4'')\<rparr>"

definition ask :: "string \<Rightarrow> json outcome" where
  "ask f = Returned (JObj [(''fen'', JStr f)])"

definition key :: "nat \<Rightarrow> string" where
  "key n = replicate n (CHR ''p'')"

definition filled :: "nat \<Rightarrow> (string \<times> ref) list" where
  "filled n = map (\<lambda>i. (key i, i)) [0..<n]"



text \<open>
  The server just started, and a schedule of two requests for the initial position: the
  first runs up to the lines after the lock, then the second takes the lock.
\<close>

definition sys0 :: system where
  "sys0 = \<lparr>globals = s0, engine_lock = None, threads = []\<rparr>"

definition two_misses :: "action list" where
  "two_misses =
     [Arrive (ask startpos) healthy, Arrive (ask startpos) healthy,
      Move 0, Move 0, Move 0, Move 0, Move 0, Move 1, Move 1]"

section \<open>The cache write\<close>

subsection \<open>Assignment and eviction\<close>

lemma setitem_absent: "k \<notin> set (map fst c) \<Longrightarrow> setitem c k v = c @ [(k, v)]"
  by (induction c) auto

lemma keys_setitem_present: "k \<in> set (map fst c) \<Longrightarrow> map fst (setitem c k v) = map fst c"
  by (induction c) force+

lemma length_setitem: "length (setitem c k v) = (if k \<in> set (map fst c) then length c else Suc (length c))"
  by (induction c) force+

lemma map_of_setitem: "map_of (setitem c k v) = (map_of c)(k \<mapsto> v)"
  by (induction c) (auto simp: fun_eq_iff)

lemma pop_first_full: "MAX_CACHE_SIZE \<le> length c \<Longrightarrow> pop_first c = Inr (tl c)"
  by (cases c) (auto simp: MAX_CACHE_SIZE_def)

lemma cache_put_total: "\<exists>c'. cache_put c k v = Inr c'"
  by (cases c) (auto simp: cache_put_def MAX_CACHE_SIZE_def)

lemma cache_put_eq:
  "cache_put c k v = Inr (setitem (if MAX_CACHE_SIZE \<le> length c then tl c else c) k v)"
  by (simp add: cache_put_def pop_first_full)





lemma distinct_setitem: "distinct (map fst c) \<Longrightarrow> distinct (map fst (setitem c k v))"
  by (cases "k \<in> set (map fst c)") (simp_all add: keys_setitem_present setitem_absent)

subsection \<open>The example cache\<close>

lemma key_inject: "(key m = key n) = (m = n)"
  unfolding key_def by (metis length_replicate)

lemma length_filled: "length (filled n) = n"
  by (simp add: filled_def)

lemma keys_filled: "map fst (filled n) = map key [0..<n]"
  by (simp add: filled_def comp_def)

lemma distinct_filled: "distinct (map fst (filled n))"
  by (simp add: keys_filled distinct_map inj_on_def key_inject)

lemma key_in_filled: "(key m \<in> set (map fst (filled n))) = (m < n)"
  by (auto simp: keys_filled key_inject)

lemma filled_Suc: "filled (Suc n) = filled n @ [(key n, n)]"
  by (simp add: filled_def)

lemma filled_Cons: "filled (Suc n) = (key 0, 0) # map (\<lambda>i. (key (Suc i), Suc i)) [0..<n]"
  unfolding filled_def
  by (simp only: upt_conv_Cons[of 0 "Suc n"] map_Suc_upt[symmetric] list.map map_map comp_def)

subsection \<open>The eviction never fails\<close>



subsection \<open>Capacity and order of eviction\<close>


lemma map_of_tl:
  "distinct (map fst c) \<Longrightarrow> c \<noteq> [] \<Longrightarrow> map_of (tl c) = (map_of c)(fst (hd c) := None)"
  by (cases c) (auto simp: fun_eq_iff map_of_eq_None_iff)



subsection \<open>Writing a key that is present\<close>

text \<open>
  Claim C5, as the code has it. Below the bound, the write of a present key replaces
  its value where it stands: the keys and their order are unchanged, and only that key's
  value changes. At the bound the eviction runs first, whatever the key: the first
  entry is removed, and the key is then overwritten in place if it was another entry,
  and appended as the newest if it was the first.
\<close>

theorem overwrite_in_place:
  "k \<in> set (map fst c) \<Longrightarrow> distinct (map fst c) \<Longrightarrow>
   (length c < MAX_CACHE_SIZE \<longrightarrow>
      (\<exists>c'. cache_put c k v = Inr c' \<and> map fst c' = map fst c \<and> map_of c' = (map_of c)(k \<mapsto> v)))
   \<and> (MAX_CACHE_SIZE \<le> length c \<longrightarrow>
      (\<exists>c'. cache_put c k v = Inr c' \<and> distinct (map fst c')
         \<and> map fst c' = (if k = fst (hd c) then map fst (tl c) @ [k] else map fst (tl c))
         \<and> map_of c' = ((map_of c)(fst (hd c) := None))(k \<mapsto> v)))"
proof (intro conjI impI)
  assume k: "k \<in> set (map fst c)" and d: "distinct (map fst c)"
  {
    assume "length c < MAX_CACHE_SIZE"
    then show "\<exists>c'. cache_put c k v = Inr c' \<and> map fst c' = map fst c \<and> map_of c' = (map_of c)(k \<mapsto> v)"
      using k by (simp add: cache_put_eq keys_setitem_present map_of_setitem)
  next
    assume full: "MAX_CACHE_SIZE \<le> length c"
    obtain a c1 where c: "c = a # c1" using k by (cases c) auto
    have d1: "distinct (map fst c1)" and a: "fst a \<notin> set (map fst c1)" using d by (simp_all add: c)
    have put: "cache_put c k v = Inr (setitem c1 k v)" using full by (simp add: cache_put_eq c)
    have keys: "map fst (setitem c1 k v) = (if k = fst a then map fst c1 @ [k] else map fst c1)"
    proof (cases "k = fst a")
      case True
      then show ?thesis using a by (simp add: setitem_absent)
    next
      case False
      then have "k \<in> set (map fst c1)" using k by (auto simp: c)
      then show ?thesis using False by (simp add: keys_setitem_present)
    qed
    have "map_of c1 = (map_of c)(fst a := None)"
      using map_of_tl[OF d] by (simp add: c)
    then have "map_of (setitem c1 k v) = ((map_of c)(fst a := None))(k \<mapsto> v)"
      by (simp add: map_of_setitem)
    then show "\<exists>c'. cache_put c k v = Inr c' \<and> distinct (map fst c')
         \<and> map fst c' = (if k = fst (hd c) then map fst (tl c) @ [k] else map fst (tl c))
         \<and> map_of c' = ((map_of c)(fst (hd c) := None))(k \<mapsto> v)"
      using put keys distinct_setitem[OF d1, of k v] by (simp add: c)
  }
qed

theorem overwrite_in_place_witness:
  "key 1 \<in> set (map fst (filled 3)) \<and> distinct (map fst (filled 3))
   \<and> length (filled 3) < MAX_CACHE_SIZE
   \<and> (\<exists>c'. cache_put (filled 3) (key 1) 999 = Inr c' \<and> map fst c' = map fst (filled 3)
          \<and> map_of c' = (map_of (filled 3))(key 1 \<mapsto> 999))
   \<and> key 1 \<in> set (map fst (filled 512)) \<and> distinct (map fst (filled 512))
   \<and> MAX_CACHE_SIZE \<le> length (filled 512)
   \<and> (\<exists>c'. cache_put (filled 512) (key 1) 999 = Inr c' \<and> distinct (map fst c')
          \<and> map fst c' = (if key 1 = fst (hd (filled 512)) then map fst (tl (filled 512)) @ [key 1]
                           else map fst (tl (filled 512)))
          \<and> map_of c' = ((map_of (filled 512))(fst (hd (filled 512)) := None))(key 1 \<mapsto> 999))"
proof -
  have a1: "key 1 \<in> set (map fst (filled 3))" using key_in_filled[of 1 3] by simp
  have a2: "distinct (map fst (filled 3))" by (rule distinct_filled)
  have a3: "length (filled 3) < MAX_CACHE_SIZE" by (simp add: length_filled MAX_CACHE_SIZE_def)
  have b1: "key 1 \<in> set (map fst (filled 512))" using key_in_filled[of 1 512] by simp
  have b2: "distinct (map fst (filled 512))" by (rule distinct_filled)
  have b3: "MAX_CACHE_SIZE \<le> length (filled 512)" by (simp add: length_filled MAX_CACHE_SIZE_def)
  from overwrite_in_place[OF a1 a2, of 999] a3 overwrite_in_place[OF b1 b2, of 999] b3 a1 a2 b1 b2
  show ?thesis by blast
qed

lemma tl_filled: "tl (filled (Suc n)) = map (\<lambda>i. (key (Suc i), Suc i)) [0..<n]"
  by (simp only: filled_Cons list.sel)

lemma hd_filled: "hd (filled (Suc n)) = (key 0, 0)"
  by (simp only: filled_Cons list.sel)

text \<open>
  Claim C5 as stated fails on a full cache: writing the present key \<open>key 1\<close> evicts the
  entry of \<open>key 0\<close>, and 511 entries are left.
\<close>

theorem overwrite_at_capacity_evicts:
  "key 1 \<in> set (map fst (filled 512))
   \<and> map_of (filled 512) (key 0) = Some 0
   \<and> cache_put (filled 512) (key 1) 999 = Inr (setitem (tl (filled 512)) (key 1) 999)
   \<and> map_of (setitem (tl (filled 512)) (key 1) 999) (key 0) = None
   \<and> length (setitem (tl (filled 512)) (key 1) 999) = 511"
proof -
  have n: "(512::nat) = Suc 511" by simp
  have keys_tl: "map fst (tl (filled 512)) = map (\<lambda>i. key (Suc i)) [0..<511]"
    by (simp only: n tl_filled map_map comp_def fst_conv)
  have in_tl: "key 1 \<in> set (map fst (tl (filled 512)))"
    unfolding keys_tl by (simp add: key_inject image_iff)
  have out_tl: "key 0 \<notin> set (map fst (tl (filled 512)))"
    unfolding keys_tl by (simp add: key_inject image_iff)
  have p1: "key 1 \<in> set (map fst (filled 512))"
    using key_in_filled[of 1 512] by simp
  have p2: "map_of (filled 512) (key 0) = Some 0"
    by (simp only: n filled_Cons map_of.simps fst_conv snd_conv fun_upd_same)
  have p3: "cache_put (filled 512) (key 1) 999 = Inr (setitem (tl (filled 512)) (key 1) 999)"
    by (simp add: cache_put_eq length_filled MAX_CACHE_SIZE_def)
  have "map_of (tl (filled 512)) (key 0) = None"
    using out_tl by (simp only: map_of_eq_None_iff set_map not_False_eq_True)
  then have p4: "map_of (setitem (tl (filled 512)) (key 1) 999) (key 0) = None"
    by (simp add: map_of_setitem key_inject)
  have p5: "length (setitem (tl (filled 512)) (key 1) 999) = 511"
    using in_tl by (simp add: length_setitem length_filled)
  from p1 p2 p3 p4 p5 show ?thesis by blast
qed

section \<open>The route\<close>

subsection \<open>The locked section\<close>

lemma log_simps [simp]:
  "position_cache (log e s) = position_cache s"
  "heap (log e s) = heap s"
  "engine (log e s) = engine s"
  "trace (log e s) = trace s @ [e]"
  by (simp_all add: log_def)

lemma engine_call_simps:
  "engine_call e Raised s = (Inl EngineError, log e s)"
  "engine_call e (Returned x) s = (Inr x, log e s)"
  by (simp_all add: engine_call_def)

lemma evaluate_eq:
  "evaluate a p f s = (evaluate_result a p, s\<lparr>trace := trace s @ evaluate_events a (engine s) f\<rparr>)"
  by (cases a; cases p)
     (simp_all add: evaluate_def engine_analyse_def engine_play_def engine_call_simps
        evaluate_result_def evaluate_events_def log_def)

lemma initialize_engine_eq:
  "initialize_engine w s =
     (if popen_ok w \<and> configure_ok w then Inr () else Inl EngineError,
      s\<lparr>engine := (if popen_ok w then Suc (engine s) else engine s),
        trace := trace s @ init_events w (engine s)\<rparr>)"
  by (simp add: initialize_engine_def init_events_def log_def Let_def)

lemma recover_eq:
  "recover w f s =
     (if popen_ok w \<and> configure_ok w then evaluate_result (analyse_2 w) (play_2 w) else Inl EngineError,
      s\<lparr>engine := (if popen_ok w then Suc (engine s) else engine s),
        trace := trace s @ recover_events w (engine s) f\<rparr>)"
  by (simp add: recover_def initialize_engine_eq evaluate_eq recover_events_def)

lemma evaluate_result_fails: "evaluation_fails a p \<Longrightarrow> evaluate_result a p = Inl EngineError"
  by (cases a; cases p) (simp_all add: evaluation_fails_def evaluate_result_def)

lemma evaluate_result_ok: "\<not> evaluation_fails a p \<Longrightarrow> \<exists>r b. a = Returned r \<and> p = Returned b \<and> evaluate_result a p = Inr (r, b)"
  by (cases a; cases p) (simp_all add: evaluation_fails_def evaluate_result_def)

lemma locked_section_eq:
  "locked_section w f s =
     (locked_result w,
      s\<lparr>engine := (if evaluation_fails (analyse_1 w) (play_1 w) \<and> popen_ok w then Suc (engine s) else engine s),
        trace := trace s @ locked_events w (engine s) f\<rparr>)"
proof (cases "evaluation_fails (analyse_1 w) (play_1 w)")
  case True
  then show ?thesis
    by (simp add: locked_section_def evaluate_eq recover_eq locked_events_def locked_result_def
        evaluate_result_fails log_def)
next
  case False
  from evaluate_result_ok[OF this] obtain r b where
    "evaluate_result (analyse_1 w) (play_1 w) = Inr (r, b)" by blast
  then show ?thesis using False
    by (simp add: locked_section_def evaluate_eq locked_events_def locked_result_def log_def)
qed

subsection \<open>The lines before and after the lock\<close>

lemma hit_eq:
  "map_of (position_cache s) f = Some a \<Longrightarrow>
   hit (JStr f) s = (Inr (Reply200 (length (heap s))), s\<lparr>heap := heap s @ [(heap s ! a)\<lparr>cached := True\<rparr>]\<rparr>)"
  by (simp add: hit_def alloc_def)

lemma in_keys_map_of: "f \<in> set (map fst c) \<Longrightarrow> \<exists>a. map_of c f = Some a"
  by (cases "map_of c f") (auto simp: map_of_eq_None_iff)

lemma prelude_asks:
  "asks req f \<Longrightarrow>
   prelude w req s =
     (if f \<in> set (map fst (position_cache s))
      then (Inr (Inl (Reply200 (length (heap s)))),
            s\<lparr>heap := heap s @ [(heap s ! the (map_of (position_cache s) f))\<lparr>cached := True\<rparr>]\<rparr>)
      else if chess_Board w f then (Inr (Inr f), s) else (Inl ValueError, s))"
proof -
  assume a: "asks req f"
  then obtain data where rd: "req = Returned data" by (cases req) auto
  with a obtain kvs where r: "req = Returned (JObj kvs)" and g: "map_of kvs ''fen'' = Some (JStr f)"
    and ne: "f \<noteq> []"
    by (cases data) auto
  have kvs: "kvs \<noteq> []" using g by auto
  show ?thesis
  proof (cases "f \<in> set (map fst (position_cache s))")
    case True
    then obtain a where "map_of (position_cache s) f = Some a" using in_keys_map_of by fastforce
    then show ?thesis using True kvs g ne by (simp add: prelude_def r hit_eq)
  next
    case False
    then show ?thesis using kvs g ne by (simp add: prelude_def r)
  qed
qed

lemma Board_Inr: "Board w v = Inr f \<Longrightarrow> v = JStr f \<and> chess_Board w f"
  by (cases v) (auto split: if_splits)

lemma data_get_Inr:
  "data_get d k = Inr v \<Longrightarrow> \<exists>kvs. d = JObj kvs \<and> v = (case map_of kvs k of None \<Rightarrow> JNull | Some x \<Rightarrow> x)"
  by (cases d) auto

lemma prelude_Raised: "prelude w Raised s = (Inl BadRequest, s)"
  by (simp add: prelude_def)

lemma prelude_falsy:
  "\<not> truthy data \<Longrightarrow> prelude w (Returned data) s = (Inr (Inl (Reply400 ''Invalid JSON'')), s)"
  by (simp add: prelude_def)

lemma prelude_no_get:
  "truthy data \<Longrightarrow> data_get data ''fen'' = Inl e \<Longrightarrow> prelude w (Returned data) s = (Inl e, s)"
  by (simp add: prelude_def)

lemma prelude_no_fen:
  "truthy data \<Longrightarrow> data_get data ''fen'' = Inr v \<Longrightarrow> \<not> truthy v \<Longrightarrow>
   prelude w (Returned data) s = (Inr (Inl (Reply400 ''No FEN provided'')), s)"
  by (simp add: prelude_def)

lemma prelude_unhashable:
  "truthy data \<Longrightarrow> data_get data ''fen'' = Inr v \<Longrightarrow> truthy v \<Longrightarrow>
   contains (position_cache s) v = Inl e \<Longrightarrow> prelude w (Returned data) s = (Inl e, s)"
  by (simp add: prelude_def)

lemma prelude_hit:
  "truthy data \<Longrightarrow> data_get data ''fen'' = Inr v \<Longrightarrow> truthy v \<Longrightarrow>
   contains (position_cache s) v = Inr True \<Longrightarrow>
   prelude w (Returned data) s =
     (case hit v s of (Inl e, s1) \<Rightarrow> (Inl e, s1) | (Inr rep, s1) \<Rightarrow> (Inr (Inl rep), s1))"
  by (simp add: prelude_def)

lemma prelude_miss:
  "truthy data \<Longrightarrow> data_get data ''fen'' = Inr v \<Longrightarrow> truthy v \<Longrightarrow>
   contains (position_cache s) v = Inr False \<Longrightarrow>
   prelude w (Returned data) s =
     (case Board w v of Inl e \<Rightarrow> (Inl e, s) | Inr f \<Rightarrow> (Inr (Inr f), s))"
  by (simp add: prelude_def)

lemma prelude_continue:
  assumes p: "prelude w req s = (Inr (Inr f), s1)"
  shows "s1 = s \<and> asks req f \<and> f \<notin> set (map fst (position_cache s)) \<and> chess_Board w f"
proof (cases req)
  case Raised
  with p show ?thesis by (simp add: prelude_Raised)
next
  case (Returned data)
  show ?thesis
  proof (cases "truthy data")
    case False
    with p Returned show ?thesis by (simp add: prelude_falsy)
  next
    case td: True
    show ?thesis
    proof (cases "data_get data ''fen''")
      case (Inl e)
      with p Returned td show ?thesis by (simp add: prelude_no_get)
    next
      case dg: (Inr v)
      show ?thesis
      proof (cases "truthy v")
        case False
        with p Returned td dg show ?thesis by (simp add: prelude_no_fen)
      next
        case tv: True
        show ?thesis
        proof (cases "contains (position_cache s) v")
          case (Inl e)
          with p Returned td dg tv show ?thesis by (simp add: prelude_unhashable)
        next
          case (Inr b)
          show ?thesis
          proof (cases b)
            case True
            with p Returned td dg tv Inr show ?thesis
              by (simp add: prelude_hit split: prod.splits sum.splits)
          next
            case False
            with Inr have co: "contains (position_cache s) v = Inr False" by simp
            from p have "Board w v = Inr f \<and> s1 = s"
              unfolding Returned prelude_miss[OF td dg tv co] by (cases "Board w v") auto
            then have bo: "Board w v = Inr f" and s1: "s1 = s" by simp_all
            from Board_Inr[OF bo] have v: "v = JStr f" and ok: "chess_Board w f" by simp_all
            from data_get_Inr[OF dg] obtain kvs where d: "data = JObj kvs"
              and vv: "v = (case map_of kvs ''fen'' of None \<Rightarrow> JNull | Some x \<Rightarrow> x)" by blast
            from vv v have "map_of kvs ''fen'' = Some (JStr f)"
              by (cases "map_of kvs ''fen''") auto
            moreover from tv v have "f \<noteq> []" by simp
            moreover from co v have "f \<notin> set (map fst (position_cache s))" by simp
            ultimately show ?thesis using s1 ok by (simp add: Returned d)
          qed
        qed
      qed
    qed
  qed
qed

lemma prelude_frame:
  "prelude w req s = (x, s1) \<Longrightarrow>
   position_cache s1 = position_cache s \<and> trace s1 = trace s \<and> engine s1 = engine s
   \<and> take (length (heap s)) (heap s1) = heap s"
  by (auto simp: prelude_def hit_def alloc_def
      split: outcome.splits if_splits sum.splits prod.splits bool.splits)

lemma finish_eq:
  "finish f (Some ps) (Some uci) s =
     (Inr (Reply200 (length (heap s))),
      s\<lparr>heap := heap s @ [\<lparr>bestmove = uci, evaluation = evaluation_of (white ps), fen = f, cached = False\<rparr>,
                          \<lparr>bestmove = uci, evaluation = evaluation_of (white ps), fen = f, cached = False\<rparr>],
        position_cache :=
          setitem (if MAX_CACHE_SIZE \<le> length (position_cache s) then tl (position_cache s)
                   else position_cache s) f (Suc (length (heap s)))\<rparr>)"
  by (simp add: finish_def alloc_def Let_def pop_first_full nth_append)

lemma finish_cache_put:
  "cache_put (position_cache s) f (Suc (length (heap s)))
     = Inr (position_cache (snd (finish f (Some ps) (Some uci) s)))"
  by (simp add: finish_eq cache_put_eq)

lemma finish_fails:
  "finish f None b s = (Inl KeyError, s)"
  "finish f (Some ps) None s = (Inl AttributeError, s)"
  by (simp_all add: finish_def)

lemma finish_trace: "trace (snd (finish f r b s)) = trace s \<and> engine (snd (finish f r b s)) = engine s"
  by (cases r; cases b) (simp_all add: finish_fails finish_eq)

lemma analyze_body_miss:
  "asks req f \<Longrightarrow> f \<notin> set (map fst (position_cache s)) \<Longrightarrow> chess_Board w f \<Longrightarrow>
   analyze_body w req s =
     (case locked_result w of
        Inl e \<Rightarrow> (Inl e, snd (locked_section w f s))
      | Inr (r, b) \<Rightarrow> finish f r b (snd (locked_section w f s)))"
  by (simp add: analyze_body_def prelude_asks locked_section_eq split: sum.splits)

lemma analyze_body_early:
  "prelude w req s = (Inl e, s1) \<Longrightarrow> analyze_body w req s = (Inl e, s1)"
  "prelude w req s = (Inr (Inl rep), s1) \<Longrightarrow> analyze_body w req s = (Inr rep, s1)"
  by (simp_all add: analyze_body_def)

lemma analyze_trace:
  "trace (snd (analyze w req s)) =
     trace s @ (case fst (prelude w req s) of
                  Inr (Inr f) \<Rightarrow> locked_events w (engine s) f
                | _ \<Rightarrow> [])"
proof (cases "prelude w req s")
  case (Pair x s1)
  note fr = prelude_frame[OF Pair]
  show ?thesis
  proof (cases x)
    case (Inl e)
    then show ?thesis using Pair fr by (simp add: analyze_def analyze_body_def)
  next
    case (Inr y)
    show ?thesis
    proof (cases y)
      case (Inl rep)
      then show ?thesis using Pair fr Inr by (simp add: analyze_def analyze_body_def)
    next
      case (Inr f)
      with \<open>x = Inr y\<close> Pair have p: "prelude w req s = (Inr (Inr f), s1)" by simp
      from prelude_continue[OF p] have s1: "s1 = s" by simp
      show ?thesis
        by (simp add: analyze_def analyze_body_def p s1 locked_section_eq finish_trace
            case_prod_beta split: sum.splits)
    qed
  qed
qed

subsection \<open>Restarts and evaluations of one call\<close>

lemma events_append: "trace s' = trace s @ tr \<Longrightarrow> events s s' = tr"
  by (simp add: events_def)

lemma counts_evaluate_events:
  "restarts (evaluate_events a e f) = 0" "evaluations (evaluate_events a e f) = 1"
  by (cases a; simp add: restarts_def evaluations_def evaluate_events_def)+

lemma counts_init_events:
  "restarts (init_events w e) = 1" "evaluations (init_events w e) = 0"
  by (simp_all add: restarts_def evaluations_def init_events_def)

lemma counts_append:
  "restarts (xs @ ys) = restarts xs + restarts ys"
  "evaluations (xs @ ys) = evaluations xs + evaluations ys"
  by (simp_all add: restarts_def evaluations_def)

lemma counts_single:
  "restarts (x # xs) = (if is_popen x then 1 else 0) + restarts xs"
  "evaluations (x # xs) = (if is_analyse x then 1 else 0) + evaluations xs"
  "restarts [] = 0" "evaluations [] = 0"
  by (simp_all add: restarts_def evaluations_def)

lemma counts_locked_events:
  "restarts (locked_events w e f) = (if evaluation_fails (analyse_1 w) (play_1 w) then 1 else 0)"
  "evaluations (locked_events w e f) =
     (if evaluation_fails (analyse_1 w) (play_1 w) \<and> popen_ok w \<and> configure_ok w then 2 else 1)"
  by (simp_all add: locked_events_def recover_events_def counts_append counts_single
      counts_evaluate_events counts_init_events)

lemma Quit_in_locked_events:
  "evaluation_fails (analyse_1 w) (play_1 w) \<Longrightarrow> Quit e \<in> set (locked_events w e f)"
  by (simp add: locked_events_def recover_events_def init_events_def)

lemma prelude_asks_miss:
  "asks req f \<Longrightarrow> f \<notin> set (map fst (position_cache s)) \<Longrightarrow> chess_Board w f \<Longrightarrow>
   prelude w req s = (Inr (Inr f), s)"
  by (simp add: prelude_asks)

lemma analyze_events:
  "events s (snd (analyze w req s)) =
     (case fst (prelude w req s) of Inr (Inr f) \<Rightarrow> locked_events w (engine s) f | _ \<Rightarrow> [])"
  by (rule events_append) (rule analyze_trace)


text \<open>
  Claim C2. Whatever the request and whatever the engine does, a call of the route
  returns, having started at most one replacement process and evaluated at most once
  more than it restarted. When the request reaches the engine and both evaluations
  fail, the call quits the current process, starts one replacement, evaluates a second
  time only if the replacement started and was configured, and answers with status 500.
\<close>

theorem single_retry:
  assumes a: "analyze w req s = (resp, s')"
  shows "trace s' = trace s @ events s s'
     \<and> restarts (events s s') \<le> 1
     \<and> evaluations (events s s') \<le> Suc (restarts (events s s'))
     \<and> (asks req f \<and> f \<notin> set (map fst (position_cache s)) \<and> chess_Board w f
          \<and> evaluation_fails (analyse_1 w) (play_1 w) \<and> evaluation_fails (analyse_2 w) (play_2 w)
         \<longrightarrow> restarts (events s s') = 1
             \<and> Quit (engine s) \<in> set (events s s')
             \<and> evaluations (events s s') = (if popen_ok w \<and> configure_ok w then 2 else 1)
             \<and> resp = (ErrorExn EngineError, 500))"
proof -
  from a have s': "s' = snd (analyze w req s)" and resp: "resp = fst (analyze w req s)" by simp_all
  let ?tr = "case fst (prelude w req s) of Inr (Inr f) \<Rightarrow> locked_events w (engine s) f | _ \<Rightarrow> []"
  have ev: "events s s' = ?tr" unfolding s' by (rule analyze_events)
  have tr: "trace s' = trace s @ events s s'" unfolding ev unfolding s' by (rule analyze_trace)
  have c1: "restarts ?tr \<le> 1"
    by (simp add: counts_locked_events counts_single split: sum.splits)
  have c2: "evaluations ?tr \<le> Suc (restarts ?tr)"
    by (simp add: counts_locked_events counts_single split: sum.splits)
  have c3: "restarts (events s s') = 1 \<and> Quit (engine s) \<in> set (events s s')
      \<and> evaluations (events s s') = (if popen_ok w \<and> configure_ok w then 2 else 1)
      \<and> resp = (ErrorExn EngineError, 500)"
    if h: "asks req f \<and> f \<notin> set (map fst (position_cache s)) \<and> chess_Board w f
          \<and> evaluation_fails (analyse_1 w) (play_1 w) \<and> evaluation_fails (analyse_2 w) (play_2 w)"
  proof -
    from h have h1: "asks req f" and h2: "f \<notin> set (map fst (position_cache s))"
      and h3: "chess_Board w f" by blast+
    have p: "prelude w req s = (Inr (Inr f), s)" using h1 h2 h3 by (rule prelude_asks_miss)
    from h have lr: "locked_result w = Inl EngineError"
      by (simp add: locked_result_def evaluate_result_fails)
    have "analyze_body w req s = (Inl EngineError, snd (locked_section w f s))"
      by (simp add: analyze_body_miss[OF h1 h2 h3] lr)
    then have "resp = (ErrorExn EngineError, 500)"
      by (simp add: resp analyze_def respond_def)
    then show ?thesis using h by (simp add: ev p counts_locked_events Quit_in_locked_events)
  qed
  from tr c1 c2 c3 show ?thesis unfolding ev by blast
qed

theorem single_retry_witness:
  "asks (ask startpos) startpos \<and> startpos \<notin> set (map fst (position_cache s0))
   \<and> chess_Board (healthy\<lparr>analyse_1 := Raised, play_2 := Raised\<rparr>) startpos
   \<and> evaluation_fails (analyse_1 (healthy\<lparr>analyse_1 := Raised, play_2 := Raised\<rparr>))
        (play_1 (healthy\<lparr>analyse_1 := Raised, play_2 := Raised\<rparr>))
   \<and> evaluation_fails (analyse_2 (healthy\<lparr>analyse_1 := Raised, play_2 := Raised\<rparr>))
        (play_2 (healthy\<lparr>analyse_1 := Raised, play_2 := Raised\<rparr>))
   \<and> restarts (events s0 (snd (analyze (healthy\<lparr>analyse_1 := Raised, play_2 := Raised\<rparr>) (ask startpos) s0))) = 1
   \<and> evaluations (events s0 (snd (analyze (healthy\<lparr>analyse_1 := Raised, play_2 := Raised\<rparr>) (ask startpos) s0))) = 2
   \<and> fst (analyze (healthy\<lparr>analyse_1 := Raised, play_2 := Raised\<rparr>) (ask startpos) s0)
        = (ErrorExn EngineError, 500)"
proof -
  let ?w = "healthy\<lparr>analyse_1 := Raised, play_2 := Raised\<rparr>"
  have h1: "asks (ask startpos) startpos" by (simp add: ask_def startpos_def)
  have h2: "startpos \<notin> set (map fst (position_cache s0))" by (simp add: s0_def)
  have h3: "chess_Board ?w startpos" by (simp add: healthy_def)
  have h4: "evaluation_fails (analyse_1 ?w) (play_1 ?w)" by (simp add: evaluation_fails_def)
  have h5: "evaluation_fails (analyse_2 ?w) (play_2 ?w)" by (simp add: evaluation_fails_def)
  have h6: "popen_ok ?w \<and> configure_ok ?w" by (simp add: healthy_def)
  have a: "analyze ?w (ask startpos) s0
      = (fst (analyze ?w (ask startpos) s0), snd (analyze ?w (ask startpos) s0))" by simp
  from single_retry[OF a, of startpos] h1 h2 h3 h4 h5 h6 show ?thesis by presburger
qed

subsection \<open>A failed recovery\<close>

lemma locked_section_frame:
  "position_cache (snd (locked_section w f s)) = position_cache s"
  "heap (snd (locked_section w f s)) = heap s"
  by (simp_all add: locked_section_eq)

text \<open>
  Claim C3. A request for a position that is not cached and that \<^verbatim>\<open>chess.Board\<close>
  accepts, with an engine whose first evaluation fails and whose recovery fails too (the
  replacement does not start, or is not configured, or the second evaluation fails), is
  answered with status 500, and the cache and every stored result are as before the call.
\<close>

theorem failed_recovery_keeps_cache:
  assumes h1: "asks req f" and h2: "f \<notin> set (map fst (position_cache s))" and h3: "chess_Board w f"
    and h4: "evaluation_fails (analyse_1 w) (play_1 w)"
    and h5: "\<not> popen_ok w \<or> \<not> configure_ok w \<or> evaluation_fails (analyse_2 w) (play_2 w)"
  shows "fst (analyze w req s) = (ErrorExn EngineError, 500)
     \<and> position_cache (snd (analyze w req s)) = position_cache s
     \<and> heap (snd (analyze w req s)) = heap s"
proof -
  have lr: "locked_result w = Inl EngineError"
    using h4 h5 by (auto simp: locked_result_def evaluate_result_fails)
  have "analyze_body w req s = (Inl EngineError, snd (locked_section w f s))"
    by (simp add: analyze_body_miss[OF h1 h2 h3] lr)
  then show ?thesis
    by (simp add: analyze_def respond_def locked_section_frame)
qed

theorem failed_recovery_keeps_cache_witness:
  "asks (ask startpos) startpos
   \<and> startpos \<notin> set (map fst (position_cache s0))
   \<and> chess_Board (healthy\<lparr>analyse_1 := Raised, popen_ok := False\<rparr>) startpos
   \<and> evaluation_fails (analyse_1 (healthy\<lparr>analyse_1 := Raised, popen_ok := False\<rparr>))
        (play_1 (healthy\<lparr>analyse_1 := Raised, popen_ok := False\<rparr>))
   \<and> \<not> popen_ok (healthy\<lparr>analyse_1 := Raised, popen_ok := False\<rparr>)
   \<and> fst (analyze (healthy\<lparr>analyse_1 := Raised, popen_ok := False\<rparr>) (ask startpos) s0)
        = (ErrorExn EngineError, 500)
   \<and> position_cache (snd (analyze (healthy\<lparr>analyse_1 := Raised, popen_ok := False\<rparr>) (ask startpos) s0))
        = position_cache s0
   \<and> heap (snd (analyze (healthy\<lparr>analyse_1 := Raised, popen_ok := False\<rparr>) (ask startpos) s0)) = heap s0"
proof -
  let ?w = "healthy\<lparr>analyse_1 := Raised, popen_ok := False\<rparr>"
  have h1: "asks (ask startpos) startpos" by (simp add: ask_def startpos_def)
  have h2: "startpos \<notin> set (map fst (position_cache s0))" by (simp add: s0_def)
  have h3: "chess_Board ?w startpos" by (simp add: healthy_def)
  have h4: "evaluation_fails (analyse_1 ?w) (play_1 ?w)" by (simp add: evaluation_fails_def)
  have h5: "\<not> popen_ok ?w" by simp
  from failed_recovery_keeps_cache[OF h1 h2 h3 h4] h1 h2 h3 h4 h5 show ?thesis by blast
qed

subsection \<open>Requests without a usable position\<close>




subsection \<open>A miss, then a hit\<close>

lemma locked_result_Inr:
  "locked_result w = Inr (r, b) \<Longrightarrow>
   evaluation_fails (analyse_1 w) (play_1 w) \<longrightarrow> popen_ok w \<and> configure_ok w"
  by (auto simp: locked_result_def split: if_splits)

lemma keys_tl_subset: "f \<notin> set (map fst c) \<Longrightarrow> f \<notin> set (map fst (tl c))"
  by (cases c) auto

lemma map_of_snoc_fresh: "f \<notin> set (map fst c) \<Longrightarrow> map_of (c @ [(f, a)]) f = Some a"
  by (induction c) auto

lemma analyze_miss_200:
  assumes h1: "asks req f" and h2: "f \<notin> set (map fst (position_cache s))"
    and h3: "analyze w req s = ((Result d, 200), s1)"
  shows "\<exists>ps uci. chess_Board w f \<and> locked_result w = Inr (Some ps, Some uci)
     \<and> d = \<lparr>bestmove = uci, evaluation = evaluation_of (white ps), fen = f, cached = False\<rparr>
     \<and> s1 = snd (finish f (Some ps) (Some uci) (snd (locked_section w f s)))"
proof -
  have ok: "chess_Board w f"
  proof (rule ccontr)
    assume "\<not> chess_Board w f"
    with h2 have "prelude w req s = (Inl ValueError, s)" by (simp add: prelude_asks[OF h1])
    then have "analyze w req s = ((ErrorExn ValueError, 500), s)"
      by (simp add: analyze_def respond_def analyze_body_early(1))
    with h3 show False by simp
  qed
  note body = analyze_body_miss[OF h1 h2 ok]
  show ?thesis
  proof (cases "locked_result w")
    case (Inl e)
    with h3 show ?thesis by (simp add: analyze_def body respond_def)
  next
    case (Inr rb)
    obtain r b where rb: "rb = (r, b)" by (cases rb)
    show ?thesis
    proof (cases r)
      case None
      with h3 Inr rb show ?thesis by (simp add: analyze_def body respond_def finish_fails)
    next
      case (Some ps)
      show ?thesis
      proof (cases b)
        case None
        with h3 Inr rb Some show ?thesis by (simp add: analyze_def body respond_def finish_fails)
      next
        case (Some uci)
        let ?sL = "snd (locked_section w f s)"
        let ?d = "\<lparr>bestmove = uci, evaluation = evaluation_of (white ps), fen = f, cached = False\<rparr>"
        obtain sF where fin: "finish f (Some ps) (Some uci) ?sL = (Inr (Reply200 (length (heap ?sL))), sF)"
          by (simp add: finish_eq)
        have sF: "sF = snd (finish f (Some ps) (Some uci) ?sL)" by (simp add: fin)
        have val: "heap sF ! length (heap ?sL) = ?d"
          unfolding sF by (simp add: finish_eq nth_append)
        have "analyze w req s = ((Result ?d, 200), sF)"
          using Inr rb \<open>r = Some ps\<close> Some
          by (simp add: analyze_def body fin respond_def val)
        with h3 have "d = ?d" and "s1 = snd (finish f (Some ps) (Some uci) ?sL)" by (simp_all add: sF)
        then show ?thesis using ok Inr rb \<open>r = Some ps\<close> Some by simp
      qed
    qed
  qed
qed


lemmas run_defs = analyze_def analyze_body_def prelude_def ask_def s0_def healthy_def
  locked_section_def evaluate_def recover_def initialize_engine_def engine_analyse_def engine_play_def
  engine_call_def log_def finish_def alloc_def evaluation_of_def is_mate_def MAX_CACHE_SIZE_def
  respond_def Let_def hit_def events_def

lemma startpos_nonempty: "startpos \<noteq> []"
  by (simp add: startpos_def)

lemma first_call:
  "analyze healthy (ask startpos) s0 =
     ((Result \<lparr>bestmove = ''e2e4'', evaluation = Some 31, fen = startpos, cached = False\<rparr>, 200),
      \<lparr>position_cache = [(startpos, 1)],
       heap = [\<lparr>bestmove = ''e2e4'', evaluation = Some 31, fen = startpos, cached = False\<rparr>,
               \<lparr>bestmove = ''e2e4'', evaluation = Some 31, fen = startpos, cached = False\<rparr>],
       engine = 0,
       trace = [Acquire, Analyse 0 startpos, Play 0 startpos, Release]\<rparr>)"
  by (simp add: run_defs startpos_nonempty)


text \<open>
  Claim C8, as the code has it. A request for a position that is not cached and that is
  answered with status 200 is answered with \<^verbatim>\<open>cached\<close> false, after one evaluation
  when the first one succeeds, and after one restart and a second evaluation when the
  first one fails. The same request made next, whatever the engine would do, is answered
  with the same move and evaluation and \<^verbatim>\<open>cached\<close> true, with no call on the engine
  and no change of the cache.
\<close>

theorem miss_then_hit:
  assumes h1: "asks req f" and h2: "f \<notin> set (map fst (position_cache s))"
    and h3: "analyze w req s = ((Result d, 200), s1)"
  shows "cached d = False \<and> fen d = f
     \<and> evaluations (events s s1) = (if evaluation_fails (analyse_1 w) (play_1 w) then 2 else 1)
     \<and> restarts (events s s1) = (if evaluation_fails (analyse_1 w) (play_1 w) then 1 else 0)
     \<and> fst (analyze w' req s1) = (Result (d\<lparr>cached := True\<rparr>), 200)
     \<and> events s1 (snd (analyze w' req s1)) = []
     \<and> position_cache (snd (analyze w' req s1)) = position_cache s1"
proof -
  from analyze_miss_200[OF h1 h2 h3] obtain ps uci where ok: "chess_Board w f"
    and lr: "locked_result w = Inr (Some ps, Some uci)"
    and d: "d = \<lparr>bestmove = uci, evaluation = evaluation_of (white ps), fen = f, cached = False\<rparr>"
    and s1: "s1 = snd (finish f (Some ps) (Some uci) (snd (locked_section w f s)))"
    by blast
  from h3 have s1': "s1 = snd (analyze w req s)" by simp
  have ev: "events s s1 = locked_events w (engine s) f"
    unfolding s1' by (simp add: analyze_events prelude_asks_miss[OF h1 h2 ok])
  note imp = locked_result_Inr[OF lr]
  let ?c = "if MAX_CACHE_SIZE \<le> length (position_cache s) then tl (position_cache s) else position_cache s"
  have fresh: "f \<notin> set (map fst ?c)" using h2 keys_tl_subset[OF h2] by (simp split: if_splits)
  have "setitem ?c f (Suc (length (heap s))) = ?c @ [(f, Suc (length (heap s)))]"
    using fresh by (rule setitem_absent)
  moreover have "position_cache s1 = setitem ?c f (Suc (length (heap s)))"
    unfolding s1 finish_eq locked_section_eq by simp
  ultimately have pc: "position_cache s1 = ?c @ [(f, Suc (length (heap s)))]"
    by (rule back_subst[where P="\<lambda>x. position_cache s1 = x", rotated])
  have hp: "heap s1 = heap s @ [d, d]"
    by (simp add: s1 finish_eq locked_section_eq d)
  have inkeys: "f \<in> set (map fst (position_cache s1))" by (simp add: pc)
  have look: "map_of (position_cache s1) f = Some (Suc (length (heap s)))"
    unfolding pc using fresh by (rule map_of_snoc_fresh)
  have pre: "prelude w' req s1 =
      (Inr (Inl (Reply200 (length (heap s1)))), s1\<lparr>heap := heap s1 @ [d\<lparr>cached := True\<rparr>]\<rparr>)"
    using inkeys by (simp add: prelude_asks[OF h1] look hp nth_append)
  have second: "analyze w' req s1 =
      ((Result (d\<lparr>cached := True\<rparr>), 200), s1\<lparr>heap := heap s1 @ [d\<lparr>cached := True\<rparr>]\<rparr>)"
    by (simp add: analyze_def analyze_body_early(2)[OF pre] respond_def)
  have e2: "events s1 (s1\<lparr>heap := heap s1 @ [d\<lparr>cached := True\<rparr>]\<rparr>) = []"
    by (simp add: events_def)
  have c1: "cached d = False \<and> fen d = f" by (simp add: d)
  have c2: "evaluations (events s s1) = (if evaluation_fails (analyse_1 w) (play_1 w) then 2 else 1)"
    using imp by (simp add: ev counts_locked_events)
  have c3: "restarts (events s s1) = (if evaluation_fails (analyse_1 w) (play_1 w) then 1 else 0)"
    by (simp add: ev counts_locked_events)
  from c1 c2 c3 e2 show ?thesis by (simp add: second)
qed

theorem miss_then_hit_witness:
  "asks (ask startpos) startpos
   \<and> startpos \<notin> set (map fst (position_cache s0))
   \<and> analyze healthy (ask startpos) s0 =
       ((Result \<lparr>bestmove = ''e2e4'', evaluation = Some 31, fen = startpos, cached = False\<rparr>, 200),
        snd (analyze healthy (ask startpos) s0))
   \<and> evaluations (events s0 (snd (analyze healthy (ask startpos) s0))) = 1
   \<and> restarts (events s0 (snd (analyze healthy (ask startpos) s0))) = 0
   \<and> fst (analyze (healthy\<lparr>analyse_1 := Raised\<rparr>) (ask startpos) (snd (analyze healthy (ask startpos) s0)))
       = (Result \<lparr>bestmove = ''e2e4'', evaluation = Some 31, fen = startpos, cached = True\<rparr>, 200)
   \<and> events (snd (analyze healthy (ask startpos) s0))
        (snd (analyze (healthy\<lparr>analyse_1 := Raised\<rparr>) (ask startpos) (snd (analyze healthy (ask startpos) s0)))) = []"
proof -
  have h1: "asks (ask startpos) startpos" by (simp add: ask_def startpos_def)
  have h2: "startpos \<notin> set (map fst (position_cache s0))" by (simp add: s0_def)
  have h3: "analyze healthy (ask startpos) s0 =
       ((Result \<lparr>bestmove = ''e2e4'', evaluation = Some 31, fen = startpos, cached = False\<rparr>, 200),
        snd (analyze healthy (ask startpos) s0))"
    by (simp add: first_call)
  have h4: "\<not> evaluation_fails (analyse_1 healthy) (play_1 healthy)"
    by (simp add: evaluation_fails_def healthy_def)
  from miss_then_hit[OF h1 h2 h3, of "healthy\<lparr>analyse_1 := Raised\<rparr>"] h4 h1 h2 h3
  show ?thesis by simp
qed


text \<open>
  Claim C8 as stated fails when the first \<^verbatim>\<open>analyse\<close> raises and the recovery
  succeeds: the call is answered with status 200 and \<^verbatim>\<open>cached\<close> false, and the
  engine was asked to analyse twice, on two processes.
\<close>

theorem recovered_miss_evaluates_twice:
  "asks (ask startpos) startpos
   \<and> startpos \<notin> set (map fst (position_cache s0))
   \<and> fst (analyze (healthy\<lparr>analyse_1 := Raised\<rparr>) (ask startpos) s0)
       = (Result \<lparr>bestmove = ''d2d4'', evaluation = Some 28, fen = startpos, cached = False\<rparr>, 200)
   \<and> events s0 (snd (analyze (healthy\<lparr>analyse_1 := Raised\<rparr>) (ask startpos) s0))
       = [Acquire, Analyse 0 startpos, Quit 0, Popen, Configure 1, Analyse 1 startpos,
          Play 1 startpos, Release]
   \<and> evaluations (events s0 (snd (analyze (healthy\<lparr>analyse_1 := Raised\<rparr>) (ask startpos) s0))) = 2"
  by (simp add: run_defs evaluations_def startpos_nonempty)

subsection \<open>References stay inside the store\<close>

lemma wf_ref: "wf s \<Longrightarrow> (k, a) \<in> set (position_cache s) \<Longrightarrow> a < length (heap s)"
  by (auto simp: wf_def list_all_iff)


lemma set_setitem: "set (setitem c k v) \<subseteq> insert (k, v) (set c)"
  by (induction c) (auto split: if_splits)

lemma wf_mono:
  "wf s \<Longrightarrow> position_cache s1 = position_cache s \<Longrightarrow> length (heap s) \<le> length (heap s1) \<Longrightarrow> wf s1"
  by (auto simp: wf_def list_all_iff)

lemma wf_finish:
  assumes "wf s"
  shows "wf (snd (finish f r b s))"
proof (cases r)
  case None
  with assms show ?thesis by (simp add: finish_fails)
next
  case (Some ps)
  show ?thesis
  proof (cases b)
    case None
    with assms Some show ?thesis by (simp add: finish_fails)
  next
    case (Some uci)
    let ?c = "if MAX_CACHE_SIZE \<le> length (position_cache s) then tl (position_cache s) else position_cache s"
    have sub: "set ?c \<subseteq> set (position_cache s)"
      by (cases "position_cache s") auto
    have d: "distinct (map fst ?c)" using assms by (auto simp: wf_def distinct_tl map_tl)
    have "\<And>kv. kv \<in> set (setitem ?c f (Suc (length (heap s)))) \<Longrightarrow> snd kv < Suc (Suc (length (heap s)))"
    proof -
      fix kv assume "kv \<in> set (setitem ?c f (Suc (length (heap s))))"
      then have "kv = (f, Suc (length (heap s))) \<or> kv \<in> set (position_cache s)"
        using set_setitem[of ?c f "Suc (length (heap s))"] sub by blast
      then show "snd kv < Suc (Suc (length (heap s)))"
        using assms by (auto simp: wf_def list_all_iff less_Suc_eq)
    qed
    then show ?thesis using \<open>r = Some ps\<close> Some distinct_setitem[OF d]
      by (simp add: finish_eq wf_def list_all_iff)
  qed
qed

lemma wf_analyze: "wf s \<Longrightarrow> wf (snd (analyze w req s))"
proof -
  assume w: "wf s"
  have lock: "\<And>f. wf (snd (locked_section w f s))" using w by (simp add: locked_section_eq wf_def)
  obtain x s1 where p: "prelude w req s = (x, s1)" by (cases "prelude w req s")
  from prelude_frame[OF p] have c: "position_cache s1 = position_cache s"
    and tk: "take (length (heap s)) (heap s1) = heap s" by simp_all
  have "length (take (length (heap s)) (heap s1)) = length (heap s)" by (simp only: tk)
  then have "length (heap s) \<le> length (heap s1)" by simp
  with w c have w1: "wf s1" by (rule wf_mono)
  show ?thesis
  proof (cases x)
    case (Inl e)
    then show ?thesis using p w1 by (simp add: analyze_def analyze_body_def)
  next
    case (Inr y)
    show ?thesis
    proof (cases y)
      case (Inl rep)
      then show ?thesis using p Inr w1 by (simp add: analyze_def analyze_body_def)
    next
      case (Inr f)
      with \<open>x = Inr y\<close> p have p': "prelude w req s = (Inr (Inr f), s1)" by simp
      from prelude_continue[OF p'] have "s1 = s" by simp
      then show ?thesis using p' wf_finish[OF lock, of f] lock[of f]
        by (simp add: analyze_def analyze_body_def case_prod_beta split: sum.splits)
    qed
  qed
qed

lemma wf_s0: "wf s0"
  by (simp add: s0_def wf_def)


lemma miss_stores_copy:
  "fst (finish f (Some ps) (Some uci) s) = Inr (Reply200 (length (heap s)))
   \<and> map_of (position_cache (snd (finish f (Some ps) (Some uci) s))) f = Some (Suc (length (heap s)))"
  by (simp add: finish_eq map_of_setitem)

subsection \<open>The cache hit\<close>

text \<open>
  Claim C9. On a cache hit the dictionary handed to \<^verbatim>\<open>jsonify\<close> is a new object: its
  reference is none of those the cache holds, the stored dictionaries are what they were
  (the store is only extended, by the copy with \<^verbatim>\<open>cached\<close> set), and whatever is
  written later into the returned object, every entry of the cache still reads as
  before the call. The cache itself, keys, order and references, is unchanged, and
  nothing is logged. (On a miss the cache likewise stores a copy, \<open>miss_stores_copy\<close>.)
\<close>

theorem hit_returns_copy:
  assumes w: "wf s" and h1: "asks req f" and h2: "map_of (position_cache s) f = Some a"
    and h3: "analyze_body w req s = (x, s')"
  shows "x = Inr (Reply200 (length (heap s)))
     \<and> a < length (heap s)
     \<and> length (heap s) \<notin> snd ` set (position_cache s')
     \<and> position_cache s' = position_cache s
     \<and> trace s' = trace s
     \<and> heap s' = heap s @ [(heap s ! a)\<lparr>cached := True\<rparr>]
     \<and> fst (analyze w req s) = (Result ((heap s ! a)\<lparr>cached := True\<rparr>), 200)
     \<and> (\<forall>d. \<forall>kv \<in> set (position_cache s'). (heap s')[length (heap s) := d] ! snd kv = heap s ! snd kv)"
proof -
  from h2 have mem: "(f, a) \<in> set (position_cache s)" by (rule map_of_SomeD)
  then have inkeys: "f \<in> set (map fst (position_cache s))" by force
  have pre: "prelude w req s =
      (Inr (Inl (Reply200 (length (heap s)))), s\<lparr>heap := heap s @ [(heap s ! a)\<lparr>cached := True\<rparr>]\<rparr>)"
    using inkeys by (simp add: prelude_asks[OF h1] h2)
  note body = analyze_body_early(2)[OF pre]
  from h3 have x: "x = Inr (Reply200 (length (heap s)))"
    and s': "s' = s\<lparr>heap := heap s @ [(heap s ! a)\<lparr>cached := True\<rparr>]\<rparr>"
    by (simp_all add: body)
  have bound: "\<And>kv. kv \<in> set (position_cache s) \<Longrightarrow> snd kv < length (heap s)"
    using w by (auto simp: wf_def list_all_iff)
  have a: "a < length (heap s)" using bound[OF mem] by simp
  have fresh: "length (heap s) \<notin> snd ` set (position_cache s')"
    using bound by (fastforce simp: s')
  have resp: "fst (analyze w req s) = (Result ((heap s ! a)\<lparr>cached := True\<rparr>), 200)"
    by (simp add: analyze_def body respond_def)
  have later: "\<forall>d. \<forall>kv \<in> set (position_cache s'). (heap s')[length (heap s) := d] ! snd kv = heap s ! snd kv"
    using bound by (auto simp: s' nth_append)
  from x a fresh resp later show ?thesis by (simp add: s')
qed

theorem hit_returns_copy_witness:
  "wf (snd (analyze healthy (ask startpos) s0))
   \<and> asks (ask startpos) startpos
   \<and> map_of (position_cache (snd (analyze healthy (ask startpos) s0))) startpos = Some 1
   \<and> fst (analyze_body healthy (ask startpos) (snd (analyze healthy (ask startpos) s0)))
        = Inr (Reply200 (length (heap (snd (analyze healthy (ask startpos) s0)))))
   \<and> position_cache (snd (analyze_body healthy (ask startpos) (snd (analyze healthy (ask startpos) s0))))
        = position_cache (snd (analyze healthy (ask startpos) s0))
   \<and> length (heap (snd (analyze healthy (ask startpos) s0)))
        \<notin> snd ` set (position_cache (snd (analyze_body healthy (ask startpos) (snd (analyze healthy (ask startpos) s0)))))"
proof -
  let ?s = "snd (analyze healthy (ask startpos) s0)"
  have w: "wf ?s" using wf_s0 by (rule wf_analyze)
  have h1: "asks (ask startpos) startpos" by (simp add: ask_def startpos_nonempty)
  have h2: "map_of (position_cache ?s) startpos = Some 1" by (simp add: first_call)
  have h3: "analyze_body healthy (ask startpos) ?s
      = (fst (analyze_body healthy (ask startpos) ?s), snd (analyze_body healthy (ask startpos) ?s))"
    by simp
  from hit_returns_copy[OF w h1 h2 h3] w h1 h2 show ?thesis by blast
qed

section \<open>The evaluation\<close>

lemma evaluation_cp: "evaluation_of (white (PovScore (Cp n) t)) = Some (if t = White then n else - n)"
  by (simp add: evaluation_of_def is_mate_def)

lemma evaluation_mate:
  "n \<noteq> 0 \<Longrightarrow>
   evaluation_of (white (PovScore (Mate n) t))
     = Some (if winner (PovScore (Mate n) t) = Some White then 10000 else - 10000)"
  by (cases t) (auto simp: evaluation_of_def is_mate_def)

lemma evaluation_mate_zero:
  "evaluation_of (white (PovScore (Mate 0) t)) = Some (- 10000)"
  "evaluation_of (white (PovScore MateGiven t)) = Some (- 10000)"
  by (simp_all add: evaluation_of_def is_mate_def)

lemma evaluation_some: "\<exists>n. evaluation_of sc = Some n"
  by (cases sc) (simp_all add: evaluation_of_def is_mate_def)


section \<open>Concurrent requests\<close>

subsection \<open>One thread alone runs the route\<close>

lemma run_Finished: "run n i (t\<lparr>at := Finished r\<rparr>) g l = (Finished r, g, l)"
  by (cases n) (simp_all add: step_thread_def)

lemma nine: "(9::nat) = Suc (Suc (Suc (Suc (Suc (Suc (Suc (Suc (Suc 0))))))))"
  by simp

lemma run_analyze:
  "run 9 i \<lparr>request = req, world = w, at = Entry\<rparr> g None
     = (Finished (fst (analyze w req g)), snd (analyze w req g), None)"
proof (cases "prelude w req g")
  case (Pair x s1)
  show ?thesis
  proof (cases x)
    case (Inl e)
    then show ?thesis using Pair
      by (simp add: nine step_thread_def run_Finished analyze_def analyze_body_def)
  next
    case (Inr y)
    show ?thesis
    proof (cases y)
      case (Inl rep)
      then show ?thesis using Pair Inr
        by (simp add: nine step_thread_def run_Finished analyze_def analyze_body_def)
    next
      case (Inr f)
      then show ?thesis using Pair \<open>x = Inr y\<close>
        by (cases "analyse_1 w"; cases "play_1 w"; cases "popen_ok w"; cases "configure_ok w";
            cases "analyse_2 w"; cases "play_2 w")
           (simp_all add: nine step_thread_def run_Finished analyze_def analyze_body_def
             locked_section_def evaluate_def recover_def initialize_engine_def engine_analyse_def
             engine_play_def engine_call_def log_def Let_def case_prod_beta respond_def
             split: sum.splits)
    qed
  qed
qed

subsection \<open>The lock and the places of the threads\<close>

lemma step_thread_lock:
  assumes "step_thread i t g l = Some (p, g', l')"
  shows "(\<not> in_with (at t) \<and> \<not> in_with p \<and> l' = l)
       \<or> (\<not> in_with (at t) \<and> l = None \<and> in_with p \<and> l' = Some i)
       \<or> (in_with (at t) \<and> in_with p \<and> l' = l)
       \<or> (in_with (at t) \<and> \<not> in_with p \<and> l' = None)"
  using assms
  by (cases "at t")
     (auto simp: step_thread_def split: prod.splits sum.splits if_splits)

lemma lock_inv_step:
  assumes inv: "lock_inv S" and st: "step S S'"
  shows "lock_inv S'"
  using st
proof cases
  case (arrive r w)
  show ?thesis
    unfolding lock_inv_def
  proof (intro conjI allI impI)
    fix i assume "i < length (threads S')"
    then have "i < length (threads S) \<or> i = length (threads S)" by (auto simp: arrive)
    then show "in_with (at (threads S' ! i)) = (engine_lock S' = Some i)"
    proof
      assume "i < length (threads S)"
      then show ?thesis using inv by (simp add: arrive lock_inv_def nth_append)
    next
      assume i: "i = length (threads S)"
      have "engine_lock S \<noteq> Some (length (threads S))" using inv by (auto simp: lock_inv_def)
      then show ?thesis by (simp add: arrive i)
    qed
  next
    fix i assume "engine_lock S' = Some i"
    then show "i < length (threads S')" using inv by (auto simp: arrive lock_inv_def)
  qed
next
  case (move i p g l)
  note lk = step_thread_lock[OF move(3)]
  have own: "in_with (at (threads S ! i)) = (engine_lock S = Some i)"
    using inv move(2) by (simp add: lock_inv_def)
  show ?thesis
    unfolding lock_inv_def
  proof (intro conjI allI impI)
    fix j assume j: "j < length (threads S')"
    then have j': "j < length (threads S)" by (simp add: move)
    have oj: "in_with (at (threads S ! j)) = (engine_lock S = Some j)"
      using inv j' by (simp add: lock_inv_def)
    show "in_with (at (threads S' ! j)) = (engine_lock S' = Some j)"
    proof (cases "j = i")
      case True
      then show ?thesis using lk own move(2) by (auto simp: move)
    next
      case False
      then show ?thesis using lk own oj j' by (auto simp: move)
    qed
  next
    fix j assume "engine_lock S' = Some j"
    then show "j < length (threads S')"
      using lk inv move(2) by (auto simp: move lock_inv_def)
  qed
qed

lemma lock_inv_reachable: "reachable S \<Longrightarrow> lock_inv S"
proof (induction rule: reachable.induct)
  case (reach_initial S)
  then show ?case by (simp add: initial_def lock_inv_def)
next
  case (reach_step S S')
  then show ?case by (blast intro: lock_inv_step)
qed

lemma do_action_step: "do_action a S = Some S' \<Longrightarrow> step S S'"
proof (cases a)
  case (Arrive r w)
  assume "do_action a S = Some S'"
  then have "S' = S\<lparr>threads := threads S @ [\<lparr>request = r, world = w, at = Entry\<rparr>]\<rparr>"
    by (simp add: Arrive)
  then show ?thesis by (simp add: step.arrive)
next
  case (Move i)
  assume d: "do_action a S = Some S'"
  then have i: "i < length (threads S)" by (simp add: Move split: if_splits)
  from d i obtain p g l where st: "step_thread i (threads S ! i) (globals S) (engine_lock S) = Some (p, g, l)"
    and S': "S' = S\<lparr>globals := g, engine_lock := l, threads := (threads S)[i := (threads S ! i)\<lparr>at := p\<rparr>]\<rparr>"
    by (auto simp: Move split: option.splits)
  show ?thesis unfolding S' using i st by (rule step.move)
qed

lemma exec_reachable: "reachable S \<Longrightarrow> exec as S = Some S' \<Longrightarrow> reachable S'"
proof (induction as arbitrary: S)
  case Nil
  then show ?case by simp
next
  case (Cons a as)
  from Cons.prems(2) obtain S1 where d: "do_action a S = Some S1" and e: "exec as S1 = Some S'"
    by (auto split: option.splits)
  from Cons.prems(1) do_action_step[OF d] have "reachable S1" by (rule reach_step)
  then show ?case using e by (rule Cons.IH)
qed

lemma reachable_sys0: "reachable sys0"
  by (rule reach_initial) (simp add: initial_def sys0_def)

lemma no_engine_call_outside:
  assumes "step_thread i t g l = Some (p, g', l')" and "\<not> in_with (at t)"
  shows "\<not> list_ex is_engine_call (events g g')"
proof (cases "at t")
  case Entry
  obtain x s1 where p: "prelude (world t) (request t) g = (x, s1)" by (cases "prelude (world t) (request t) g")
  from prelude_frame[OF p] have "trace s1 = trace g" by simp
  moreover from assms(1) have "g' = s1"
    by (auto simp: step_thread_def Entry p split: sum.splits)
  ultimately show ?thesis by (simp add: events_def)
next
  case (AtLock f)
  with assms(1) have "g' = log Acquire g" by (simp add: step_thread_def split: if_splits)
  then show ?thesis by (simp add: events_def)
next
  case (Tail f r b)
  with assms(1) have "g' = snd (finish f r b g)" by (auto simp: step_thread_def split: prod.splits)
  then show ?thesis by (simp add: events_def finish_trace)
next
  case (Finished resp)
  with assms(1) show ?thesis by (simp add: step_thread_def)
qed (use assms(2) in simp_all)

lemmas step_defs = step_thread_def prelude_def ask_def s0_def sys0_def healthy_def
  engine_analyse_def engine_play_def engine_call_def log_def startpos_nonempty

lemma exec_two_misses:
  "exec two_misses sys0 =
     Some \<lparr>globals = \<lparr>position_cache = [], heap = [], engine = 0,
                      trace = [Acquire, Analyse 0 startpos, Play 0 startpos, Release, Acquire]\<rparr>,
           engine_lock = Some 1,
           threads =
             [\<lparr>request = ask startpos, world = healthy,
               at = Tail startpos (Some (PovScore (Cp 31) White)) (Some ''e2e4'')\<rparr>,
              \<lparr>request = ask startpos, world = healthy, at = TryAnalyse startpos\<rparr>]\<rparr>"
  by (simp add: two_misses_def step_defs)

text \<open>
  Claim C1, as the code has it. In every state the server can reach, with any number of
  requests under way for any positions, at most one thread is inside the
  \<^verbatim>\<open>with engine_lock\<close> block, and it is the owner of the lock; a step that calls the
  engine is made by the owner of the lock while every other thread is outside the block,
  so no two evaluations overlap on the engine process. A thread at the lines after the
  block, where the evaluation is computed and the cache written, does not own the lock.
\<close>

theorem lock_excludes_evaluations:
  assumes r: "reachable S"
  shows "(\<forall>i<length (threads S). \<forall>j<length (threads S).
            in_with (at (threads S ! i)) \<and> in_with (at (threads S ! j)) \<longrightarrow> i = j)
     \<and> (\<forall>i<length (threads S). in_with (at (threads S ! i)) = (engine_lock S = Some i))
     \<and> (\<forall>i<length (threads S). at_cache_write (at (threads S ! i)) \<longrightarrow> engine_lock S \<noteq> Some i)
     \<and> (i < length (threads S)
          \<and> step_thread i (threads S ! i) (globals S) (engine_lock S) = Some (p, g, l)
          \<and> list_ex is_engine_call (events (globals S) g)
         \<longrightarrow> engine_lock S = Some i
             \<and> (\<forall>j<length (threads S). j \<noteq> i \<longrightarrow> \<not> in_with (at (threads S ! j))))"
proof -
  from lock_inv_reachable[OF r]
  have own: "\<And>i. i < length (threads S) \<Longrightarrow> in_with (at (threads S ! i)) = (engine_lock S = Some i)"
    by (simp add: lock_inv_def)
  have a: "\<forall>i<length (threads S). \<forall>j<length (threads S).
            in_with (at (threads S ! i)) \<and> in_with (at (threads S ! j)) \<longrightarrow> i = j"
    using own by auto
  have b: "\<forall>i<length (threads S). in_with (at (threads S ! i)) = (engine_lock S = Some i)"
    using own by blast
  have c: "\<forall>i<length (threads S). at_cache_write (at (threads S ! i)) \<longrightarrow> engine_lock S \<noteq> Some i"
  proof (intro allI impI)
    fix i assume i: "i < length (threads S)" and w: "at_cache_write (at (threads S ! i))"
    from w have "\<not> in_with (at (threads S ! i))" by (cases "at (threads S ! i)") simp_all
    with own[OF i] show "engine_lock S \<noteq> Some i" by simp
  qed
  have d: "engine_lock S = Some i \<and> (\<forall>j<length (threads S). j \<noteq> i \<longrightarrow> \<not> in_with (at (threads S ! j)))"
    if h: "i < length (threads S)
          \<and> step_thread i (threads S ! i) (globals S) (engine_lock S) = Some (p, g, l)
          \<and> list_ex is_engine_call (events (globals S) g)"
  proof -
    from h no_engine_call_outside[of i "threads S ! i" "globals S" "engine_lock S" p g l]
    have "in_with (at (threads S ! i))" by blast
    with own h have "engine_lock S = Some i" by blast
    then show ?thesis using own by auto
  qed
  from a b c d show ?thesis by blast
qed

theorem lock_excludes_evaluations_witness:
  "reachable (the (exec two_misses sys0))
   \<and> 1 < length (threads (the (exec two_misses sys0)))
   \<and> step_thread 1 (threads (the (exec two_misses sys0)) ! 1) (globals (the (exec two_misses sys0)))
        (engine_lock (the (exec two_misses sys0)))
       = Some (TryPlay startpos (Some (PovScore (Cp 31) White)),
               log (Analyse 0 startpos) (globals (the (exec two_misses sys0))), Some 1)
   \<and> list_ex is_engine_call
        (events (globals (the (exec two_misses sys0)))
           (log (Analyse 0 startpos) (globals (the (exec two_misses sys0)))))
   \<and> engine_lock (the (exec two_misses sys0)) = Some 1
   \<and> \<not> in_with (at (threads (the (exec two_misses sys0)) ! 0))"
proof -
  let ?S = "the (exec two_misses sys0)"
  have "exec two_misses sys0 = Some ?S" by (simp add: exec_two_misses)
  with reachable_sys0 have r: "reachable ?S" by (rule exec_reachable)
  have n: "1 < length (threads ?S)" and n0: "0 < length (threads ?S)" by (simp_all add: exec_two_misses)
  have st: "step_thread 1 (threads ?S ! 1) (globals ?S) (engine_lock ?S)
      = Some (TryPlay startpos (Some (PovScore (Cp 31) White)), log (Analyse 0 startpos) (globals ?S), Some 1)"
    by (simp add: exec_two_misses step_thread_def healthy_def engine_analyse_def engine_call_def)
  have ev: "list_ex is_engine_call (events (globals ?S) (log (Analyse 0 startpos) (globals ?S)))"
    by (simp add: events_def)
  from lock_excludes_evaluations[OF r, of 1 "TryPlay startpos (Some (PovScore (Cp 31) White))"
      "log (Analyse 0 startpos) (globals ?S)" "Some 1"] n n0 st ev r
  show ?thesis by (metis zero_neq_one)
qed

text \<open>
  Claim C1 as stated fails in its second part: after \<open>two_misses\<close> the first request
  has its cache write still before it, the cache being empty, while the lock is owned by
  the second request, which is inside the \<^verbatim>\<open>with\<close> block.
\<close>

theorem cache_write_without_lock:
  "reachable (the (exec two_misses sys0))
   \<and> at_cache_write (at (threads (the (exec two_misses sys0)) ! 0))
   \<and> engine_lock (the (exec two_misses sys0)) = Some 1
   \<and> in_with (at (threads (the (exec two_misses sys0)) ! 1))
   \<and> position_cache (globals (the (exec two_misses sys0))) = []"
proof -
  have "exec two_misses sys0 = Some (the (exec two_misses sys0))" by (simp add: exec_two_misses)
  with reachable_sys0 have "reachable (the (exec two_misses sys0))" by (rule exec_reachable)
  then show ?thesis by (simp add: exec_two_misses)
qed

end
